theory Spec2Isabelle
  imports Complex_Main "HOL-Library.AList"
begin


section \<open>The legacy session engine (src/context/GameContext.tsx)\<close>

text \<open>
  The types of src/types/index.ts. JavaScript numbers that count things are natural
  numbers, timestamps (\<open>Date.now()\<close>, milliseconds) are integers, and numbers that
  are divided are rationals. A \<open>Record<string, _>\<close> is an association list in
  insertion order, the order \<open>Object.entries\<close> walks it in.
\<close>

record ctx_question =
  cq_id :: string
  cq_subject :: string
  cq_question :: string
  cq_answers :: "string \<times> string \<times> string \<times> string"
  cq_correct :: string

record subject_stat =
  ss_correct :: nat
  ss_total :: nat

record GameState =
  gs_currentQuestion :: "ctx_question option"
  gs_questionIndex :: nat
  gs_score :: nat
  gs_questionsCorrect :: nat
  gs_questionsAttempted :: nat
  gs_revealedWords :: nat
  gs_hasStarted :: bool
  gs_hasBuzzed :: bool
  gs_showAnswer :: bool
  gs_timeLeft :: int
  gs_buzzTime :: "int option"
  gs_selectedAnswer :: "string option"
  gs_subjectStats :: "(string \<times> subject_stat) list"





record GameSettings =
  readingSpeed :: int
  questionTimer :: int
  hesitationTimerSetting :: int

definition initialGameState :: GameState where
  "initialGameState =
     \<lparr> gs_currentQuestion = None, gs_questionIndex = 0, gs_score = 0,
       gs_questionsCorrect = 0, gs_questionsAttempted = 0, gs_revealedWords = 0,
       gs_hasStarted = False, gs_hasBuzzed = False, gs_showAnswer = False,
       gs_timeLeft = 0, gs_buzzTime = None, gs_selectedAnswer = None,
       gs_subjectStats = [] \<rparr>"

text \<open>\<open>selectedQuestions[0] || null\<close>.\<close>

definition initializeGame :: "GameSettings \<Rightarrow> ctx_question list \<Rightarrow> GameState" where
  "initializeGame settings selectedQuestions =
     initialGameState
       \<lparr> gs_currentQuestion := (case selectedQuestions of [] \<Rightarrow> None | q # _ \<Rightarrow> Some q),
         gs_timeLeft := questionTimer settings,
         gs_hasStarted := True,
         gs_subjectStats := [] \<rparr>"

text \<open>
  \<open>buzzIn\<close>. The guard reads \<open>gameState\<close>, the state of the render that created the
  function, and returns without a state update. Otherwise the update
  \<open>setGameState(prev => ({...prev, hasBuzzed: true, buzzTime: Date.now()}))\<close> is queued:
  it is applied to the state \<open>prev\<close> that the earlier updates have left, which it does
  not test, with the clock value \<open>now\<close> that \<open>Date.now()\<close> gave.
\<close>

definition buzzIn :: "int \<Rightarrow> GameState \<Rightarrow> GameState \<Rightarrow> GameState" where
  "buzzIn now gameState prev =
     (if gs_hasBuzzed gameState \<or> \<not> gs_hasStarted gameState then prev
      else prev \<lparr> gs_hasBuzzed := True, gs_buzzTime := Some now \<rparr>)"


text \<open>\<open>gameQuestions[nextIndex]\<close> is \<open>undefined\<close> past the end, and then nothing happens.\<close>

definition nextQuestion :: "GameSettings \<Rightarrow> ctx_question list \<Rightarrow> GameState \<Rightarrow> GameState" where
  "nextQuestion settings gameQuestions gameState =
     (let nextIndex = gs_questionIndex gameState + 1
      in if nextIndex < length gameQuestions
         then gameState
                \<lparr> gs_currentQuestion := Some (gameQuestions ! nextIndex),
                  gs_questionIndex := nextIndex,
                  gs_revealedWords := 0,
                  gs_hasBuzzed := False,
                  gs_showAnswer := False,
                  gs_timeLeft := questionTimer settings,
                  gs_buzzTime := None,
                  gs_selectedAnswer := None \<rparr>
         else gameState)"








section \<open>The timed session component (src/components/PracticeMode.tsx)\<close>

text \<open>
  The component is a set of React state variables, handlers and effects. The model is one
  record holding the state variables, the props that the code reads
  (\<open>gameSettings\<close>), the clock, and the timers that \<open>setInterval\<close> and
  \<open>setTimeout\<close> have armed and nothing has cleared. Time is in milliseconds.

  A handler or a timer callback is a function of the JavaScript closure it was created in:
  the state variables it reads by name are those of the render that created it, while an
  updater \<open>setX(prev => ...)\<close> reads the current value. \<open>closure\<close> holds the
  variables that the callbacks of this component read from their render.

  \<open>shuffledAnswers\<close> (a random permutation of the answers) is left out; it only
  decides the order of the answer buttons.
\<close>

record Question =
  q_id :: string
  questionText :: string
  correctAnswer :: string
  distractors :: "string list"
  subjectArea :: string

record closure =
  c_currentQuestionIndex :: nat
  c_playerScore :: nat
  c_buzzTimes :: "rat list"
  c_correctBySubject :: "(string \<times> nat) list"
  c_totalBySubject :: "(string \<times> nat) list"

text \<open>
  The four ways a question resolves. The component has no variable for the outcome; the
  model logs, in \<open>outcomes\<close>, which resolving code path ran for which question index:
  \<open>handleAnswer\<close> (correct or incorrect), the callback that ends the hesitation
  message, and \<open>handleTimeExpired\<close>.
\<close>

datatype resolution = Correct | Incorrect | HesitationExpired | Timeout

datatype callback =
    RevealInterval nat
  | QuestionTimerInterval
  | HesitationInterval
  | HesitationMessageTimeout closure
  | HesitationAdvanceTimeout closure
  | TimeExpiredTimeout closure
  | AnswerTimeout closure nat

record pending =
  due :: rat
  period :: "rat option"
  cb :: callback

record pm =
  questions :: "Question list"
  questionTime :: int
  hesitationTime :: int
  wpm :: rat
  gameId :: "string option"
  loading :: bool
  currentQuestionIndex :: nat
  playerScore :: nat
  timer :: int
  revealedWordsCount :: nat
  isQuestionLive :: bool
  selectedAnswer :: "string option"
  showResult :: bool
  showCorrect :: bool
  showIncorrect :: bool
  questionStartTime :: "rat option"
  questionFullyRevealed :: bool
  buzzTimes :: "rat list"
  correctBySubject :: "(string \<times> nat) list"
  totalBySubject :: "(string \<times> nat) list"
  hasBuzzed :: bool
  showHesitation :: bool
  hesitationTimer :: "int option"
  hesitationComplete :: bool
  clock :: rat
  timers :: "pending list"
  outcomes :: "(nat \<times> resolution) list"
  endGameCalls :: "(nat \<times> closure) list"

definition capture :: "pm \<Rightarrow> closure" where
  "capture st =
     \<lparr> c_currentQuestionIndex = currentQuestionIndex st,
       c_playerScore = playerScore st,
       c_buzzTimes = buzzTimes st,
       c_correctBySubject = correctBySubject st,
       c_totalBySubject = totalBySubject st \<rparr>"

text \<open>\<open>text.split(' ')\<close>: one piece more than there are spaces.\<close>

fun split_space :: "string \<Rightarrow> string list" where
  "split_space [] = [[]]"
| "split_space (c # cs) =
     (if c = CHR '' '' then [] # split_space cs
      else (case split_space cs of [] \<Rightarrow> [[c]] | w # ws \<Rightarrow> (c # w) # ws))"

definition totalWords_of :: "Question \<Rightarrow> nat" where
  "totalWords_of q = length (split_space (questionText q))"

definition msPerWord_of :: "rat \<Rightarrow> rat" where
  "msPerWord_of w = (60 / w) * 1000"

text \<open>\<open>{...prev, [k]: (prev[k] || 0) + 1}\<close>\<close>

definition increment :: "string \<Rightarrow> (string \<times> nat) list \<Rightarrow> (string \<times> nat) list" where
  "increment k prev = AList.update k ((case map_of prev k of None \<Rightarrow> 0 | Some n \<Rightarrow> n) + 1) prev"

fun is_RevealInterval :: "callback \<Rightarrow> bool" where
  "is_RevealInterval (RevealInterval _) = True"
| "is_RevealInterval _ = False"

fun is_QuestionTimerInterval :: "callback \<Rightarrow> bool" where
  "is_QuestionTimerInterval QuestionTimerInterval = True"
| "is_QuestionTimerInterval _ = False"

fun is_HesitationInterval :: "callback \<Rightarrow> bool" where
  "is_HesitationInterval HesitationInterval = True"
| "is_HesitationInterval _ = False"

fun is_HesitationMessageTimeout :: "callback \<Rightarrow> bool" where
  "is_HesitationMessageTimeout (HesitationMessageTimeout _) = True"
| "is_HesitationMessageTimeout _ = False"

definition clearTimers :: "(callback \<Rightarrow> bool) \<Rightarrow> pm \<Rightarrow> pm" where
  "clearTimers which st = st \<lparr> timers := filter (\<lambda>p. \<not> which (cb p)) (timers st) \<rparr>"

definition setInterval :: "callback \<Rightarrow> rat \<Rightarrow> pm \<Rightarrow> pm" where
  "setInterval c ms st =
     st \<lparr> timers := timers st @ [\<lparr> due = clock st + ms, period = Some ms, cb = c \<rparr>] \<rparr>"

definition setTimeout :: "callback \<Rightarrow> rat \<Rightarrow> pm \<Rightarrow> pm" where
  "setTimeout c ms st =
     st \<lparr> timers := timers st @ [\<lparr> due = clock st + ms, period = None, cb = c \<rparr>] \<rparr>"

subsection \<open>Handlers\<close>

text \<open>
  \<open>startQuestion\<close>, called from the closure with question index \<open>idx\<close>. It returns
  early when that question does not exist or lacks its answer data.
\<close>

definition startQuestion :: "nat \<Rightarrow> pm \<Rightarrow> pm" where
  "startQuestion idx st =
     (if \<not> idx < length (questions st) then st
      else let currentQuestion = questions st ! idx in
        if correctAnswer currentQuestion = [] \<or> distractors currentQuestion = [] then st
        else st \<lparr> questionFullyRevealed := False,
                  revealedWordsCount := 0,
                  isQuestionLive := True,
                  hasBuzzed := False,
                  showHesitation := False,
                  hesitationTimer := None,
                  hesitationComplete := False,
                  selectedAnswer := None,
                  showResult := False,
                  showCorrect := False,
                  showIncorrect := False,
                  timer := questionTime st,
                  questionStartTime := Some (clock st) \<rparr>)"

text \<open>
  \<open>handleBuzz\<close>. The guard \<open>hasBuzzed || questionStartTime === null\<close> reads the two
  variables of the render that created the handler, whose state is \<open>r\<close>, and returns
  before anything is touched. An accepted buzz clears the reveal interval (held in a ref),
  computes the latency in seconds from the clock and the \<open>questionStartTime\<close> of its
  render, and queues its updates, which are applied to the current state \<open>st\<close>:
  \<open>setBuzzTimes(prev => [...prev, buzzTime])\<close> appends, \<open>setHasBuzzed(true)\<close> and
  the others overwrite. None of the updates tests the lock again.
\<close>

definition handleBuzz :: "pm \<Rightarrow> pm \<Rightarrow> pm" where
  "handleBuzz r st =
     (case questionStartTime r of
        None \<Rightarrow> st
      | Some t0 \<Rightarrow>
          if hasBuzzed r then st
          else (clearTimers is_RevealInterval st)
                 \<lparr> buzzTimes := buzzTimes st @ [(clock st - t0) / 1000],
                   hasBuzzed := True,
                   questionFullyRevealed := True,
                   hesitationComplete := False,
                   showHesitation := False \<rparr>)"

text \<open>
  \<open>endGame(finalScore)\<close> as the component sees it: the call is recorded with the
  closure it runs in, from which the persisted result is built (see
  \<open>matchHistory_of\<close>).
\<close>

definition endGame :: "closure \<Rightarrow> nat \<Rightarrow> pm \<Rightarrow> pm" where
  "endGame c finalScore st = st \<lparr> endGameCalls := endGameCalls st @ [(finalScore, c)] \<rparr>"

definition handleTimeExpired :: "closure \<Rightarrow> pm \<Rightarrow> pm" where
  "handleTimeExpired c st =
     setTimeout (TimeExpiredTimeout c) 3000
       (st \<lparr> showResult := True,
             selectedAnswer := None,
             outcomes := outcomes st @ [(c_currentQuestionIndex c, Timeout)] \<rparr>)"

text \<open>
  \<open>handleAnswer(answer)\<close> in the closure \<open>c\<close>. \<open>questions[currentQuestionIndex]\<close>
  is read without a check; the answer buttons exist only while that question does, and
  the model returns the state unchanged where the source would throw.
\<close>

definition handleAnswer :: "closure \<Rightarrow> string \<Rightarrow> pm \<Rightarrow> pm" where
  "handleAnswer c answer st =
     (if showResult st \<or> hesitationComplete st then st
      else if \<not> c_currentQuestionIndex c < length (questions st) then st
      else
        let currentQuestion = questions st ! c_currentQuestionIndex c;
            isCorrect = (answer = correctAnswer currentQuestion);
            updatedScore = (if isCorrect then c_playerScore c + 1 else c_playerScore c);
            st1 = st \<lparr> selectedAnswer := Some answer,
                       showResult := True,
                       totalBySubject := increment (subjectArea currentQuestion) (totalBySubject st),
                       outcomes := outcomes st @
                         [(c_currentQuestionIndex c, if isCorrect then Correct else Incorrect)] \<rparr>;
            st2 = (if isCorrect
                   then st1 \<lparr> playerScore := playerScore st1 + 1,
                              showCorrect := True,
                              correctBySubject :=
                                increment (subjectArea currentQuestion) (correctBySubject st1) \<rparr>
                   else st1 \<lparr> showIncorrect := True \<rparr>)
        in setTimeout (AnswerTimeout c updatedScore) 2000 st2)"

subsection \<open>Timer callbacks\<close>

definition revealTick :: "nat \<Rightarrow> pm \<Rightarrow> pm" where
  "revealTick totalWords st =
     (if revealedWordsCount st < totalWords
      then let newCount = revealedWordsCount st + 1
           in st \<lparr> revealedWordsCount := newCount,
                    questionFullyRevealed :=
                      (if newCount = totalWords then True else questionFullyRevealed st) \<rparr>
      else clearTimers is_RevealInterval st)"

definition hesitationTick :: "pm \<Rightarrow> pm" where
  "hesitationTick st =
     st \<lparr> hesitationTimer :=
            (case hesitationTimer st of
               None \<Rightarrow> Some 0
             | Some prev \<Rightarrow> if prev \<le> 0 then Some 0 else Some (prev - 1)) \<rparr>"

text \<open>
  The callback that runs 2 seconds after the hesitation message appeared: it shows the
  result, counts the question as attempted for its subject, and arms the 3 second
  timeout that advances.
\<close>

definition hesitationMessageDone :: "closure \<Rightarrow> pm \<Rightarrow> pm" where
  "hesitationMessageDone c st =
     setTimeout (HesitationAdvanceTimeout c) 3000
       (st \<lparr> showHesitation := False,
             hesitationComplete := True,
             showResult := True,
             selectedAnswer := None,
             totalBySubject :=
               (if c_currentQuestionIndex c < length (questions st)
                then increment (subjectArea (questions st ! c_currentQuestionIndex c))
                       (totalBySubject st)
                else totalBySubject st),
             outcomes := outcomes st @ [(c_currentQuestionIndex c, HesitationExpired)] \<rparr>)"

definition hesitationAdvance :: "closure \<Rightarrow> pm \<Rightarrow> pm" where
  "hesitationAdvance c st =
     (let st1 = st \<lparr> showResult := False \<rparr>;
          nextIndex = c_currentQuestionIndex c + 1
      in if nextIndex \<ge> length (questions st) then endGame c (c_playerScore c) st1
         else st1 \<lparr> currentQuestionIndex := nextIndex,
                    questionStartTime := None,
                    hasBuzzed := False,
                    showHesitation := False,
                    hesitationTimer := None,
                    hesitationComplete := False,
                    selectedAnswer := None \<rparr>)"

definition timeExpiredAdvance :: "closure \<Rightarrow> pm \<Rightarrow> pm" where
  "timeExpiredAdvance c st =
     (let st1 = st \<lparr> showResult := False \<rparr>;
          nextIndex = c_currentQuestionIndex c + 1
      in if nextIndex \<ge> length (questions st) then endGame c (c_playerScore c) st1
         else startQuestion (c_currentQuestionIndex c) (st1 \<lparr> currentQuestionIndex := nextIndex \<rparr>))"

definition answerAdvance :: "closure \<Rightarrow> nat \<Rightarrow> pm \<Rightarrow> pm" where
  "answerAdvance c updatedScore st =
     (let st1 = st \<lparr> showCorrect := False, showIncorrect := False \<rparr>;
          nextIndex = c_currentQuestionIndex c + 1
      in if nextIndex \<ge> length (questions st) then endGame c updatedScore st1
         else startQuestion (c_currentQuestionIndex c) (st1 \<lparr> currentQuestionIndex := nextIndex \<rparr>))"

fun run_callback :: "callback \<Rightarrow> pm \<Rightarrow> pm" where
  "run_callback (RevealInterval totalWords) st = revealTick totalWords st"
| "run_callback QuestionTimerInterval st = st \<lparr> timer := timer st - 1 \<rparr>"
| "run_callback HesitationInterval st = hesitationTick st"
| "run_callback (HesitationMessageTimeout c) st = hesitationMessageDone c st"
| "run_callback (HesitationAdvanceTimeout c) st = hesitationAdvance c st"
| "run_callback (TimeExpiredTimeout c) st = timeExpiredAdvance c st"
| "run_callback (AnswerTimeout c updatedScore) st = answerAdvance c updatedScore st"

subsection \<open>Effects\<close>

text \<open>
  After a handler or callback has run, React renders the new state and runs every effect
  one of whose dependencies differs from the previous render: first its cleanup, then
  its body. The body reads the state \<open>cur\<close> of the render it belongs to; what it sets
  goes to the next state \<open>acc\<close>. The effects are in the order of the source.
\<close>

text \<open>Update timer when gameSettings change (if no question is active).\<close>

definition effect_updateTimer :: "pm \<Rightarrow> pm \<Rightarrow> pm \<Rightarrow> pm" where
  "effect_updateTimer prev cur acc =
     (if (questionTime prev, questionStartTime prev) = (questionTime cur, questionStartTime cur)
      then acc
      else if questionStartTime cur = None then acc \<lparr> timer := questionTime cur \<rparr> else acc)"

text \<open>Start question when question index changes or when questions are loaded.\<close>

definition truthy_string :: "string option \<Rightarrow> bool" where
  "truthy_string v = (case v of None \<Rightarrow> False | Some s \<Rightarrow> s \<noteq> [])"

definition effect_startQuestion :: "pm \<Rightarrow> pm \<Rightarrow> pm \<Rightarrow> pm" where
  "effect_startQuestion prev cur acc =
     (if (questions prev, gameId prev, currentQuestionIndex prev, questionStartTime prev, loading prev)
         = (questions cur, gameId cur, currentQuestionIndex cur, questionStartTime cur, loading cur)
      then acc
      else if length (questions cur) > 0 \<and> truthy_string (gameId cur)
              \<and> questionStartTime cur = None \<and> \<not> loading cur
              \<and> currentQuestionIndex cur < length (questions cur)
           then startQuestion (currentQuestionIndex cur) acc
           else acc)"

text \<open>The word reveal interval.\<close>

definition effect_reveal :: "pm \<Rightarrow> pm \<Rightarrow> pm \<Rightarrow> pm" where
  "effect_reveal prev cur acc =
     (if (currentQuestionIndex prev, questions prev, wpm prev, hasBuzzed prev)
         = (currentQuestionIndex cur, questions cur, wpm cur, hasBuzzed cur)
      then acc
      else let acc1 = clearTimers is_RevealInterval acc in
        if length (questions cur) = 0 \<or> \<not> currentQuestionIndex cur < length (questions cur)
           \<or> hasBuzzed cur
        then acc1
        else setInterval
               (RevealInterval (totalWords_of (questions cur ! currentQuestionIndex cur)))
               (msPerWord_of (wpm cur)) acc1)"

text \<open>
  Question timer only runs if question is fully revealed AND buzzer hasn't been clicked;
  when it is 0 in that situation, the time has expired.
\<close>

definition effect_questionTimer :: "pm \<Rightarrow> pm \<Rightarrow> pm \<Rightarrow> pm" where
  "effect_questionTimer prev cur acc =
     (if (timer prev, questionFullyRevealed prev, hasBuzzed prev)
         = (timer cur, questionFullyRevealed cur, hasBuzzed cur)
      then acc
      else let acc1 = clearTimers is_QuestionTimerInterval acc;
               shouldRunTimer = (questionFullyRevealed cur \<and> timer cur > 0 \<and> \<not> hasBuzzed cur)
        in if shouldRunTimer then setInterval QuestionTimerInterval 1000 acc1
           else if timer cur = 0 \<and> questionFullyRevealed cur \<and> \<not> hasBuzzed cur
                then handleTimeExpired (capture cur) acc1
                else acc1)"

text \<open>Start hesitation timer when buzzer is clicked.\<close>

definition effect_startHesitation :: "pm \<Rightarrow> pm \<Rightarrow> pm \<Rightarrow> pm" where
  "effect_startHesitation prev cur acc =
     (if (hasBuzzed prev, hesitationTimer prev, hesitationComplete prev, showResult prev, hesitationTime prev)
         = (hasBuzzed cur, hesitationTimer cur, hesitationComplete cur, showResult cur, hesitationTime cur)
      then acc
      else if hasBuzzed cur \<and> hesitationTimer cur = None \<and> \<not> hesitationComplete cur
              \<and> \<not> showResult cur
           then acc \<lparr> hesitationTimer := Some (hesitationTime cur) \<rparr>
           else acc)"

text \<open>Hesitation timer countdown.\<close>

definition effect_hesitationCountdown :: "pm \<Rightarrow> pm \<Rightarrow> pm \<Rightarrow> pm" where
  "effect_hesitationCountdown prev cur acc =
     (if (hesitationTimer prev, showResult prev, hesitationComplete prev)
         = (hesitationTimer cur, showResult cur, hesitationComplete cur)
      then acc
      else let acc1 = clearTimers is_HesitationInterval acc in
        if showResult cur \<or> hesitationComplete cur
        then acc1
        else (case hesitationTimer cur of
                None \<Rightarrow> acc1
              | Some h \<Rightarrow> if h \<le> 0 then acc1 else setInterval HesitationInterval 1000 acc1))"

text \<open>When hesitation timer reaches 0, show hesitation message.\<close>

definition effect_hesitationReachedZero :: "pm \<Rightarrow> pm \<Rightarrow> pm \<Rightarrow> pm" where
  "effect_hesitationReachedZero prev cur acc =
     (if (hesitationTimer prev, showResult prev, hesitationComplete prev, showHesitation prev, hasBuzzed prev)
         = (hesitationTimer cur, showResult cur, hesitationComplete cur, showHesitation cur, hasBuzzed cur)
      then acc
      else if showResult cur \<or> hesitationComplete cur \<or> \<not> hasBuzzed cur then acc
      else if hesitationTimer cur = Some 0 \<and> \<not> showHesitation cur \<and> \<not> hesitationComplete cur
           then acc \<lparr> showHesitation := True \<rparr>
           else acc)"

text \<open>
  After hesitation message is shown, wait 2 seconds then show correct answer and advance.
  The dependencies are \<open>[showHesitation, hasBuzzed]\<close> only: the timeout armed here is
  cleared when one of these two changes, and at no other change of the state.
\<close>

definition effect_afterHesitationMessage :: "pm \<Rightarrow> pm \<Rightarrow> pm \<Rightarrow> pm" where
  "effect_afterHesitationMessage prev cur acc =
     (if (showHesitation prev, hasBuzzed prev) = (showHesitation cur, hasBuzzed cur)
      then acc
      else let acc1 = clearTimers is_HesitationMessageTimeout acc in
        if \<not> showHesitation cur \<or> hesitationComplete cur \<or> showResult cur \<or> \<not> hasBuzzed cur
        then acc1
        else setTimeout (HesitationMessageTimeout (capture cur)) 2000 acc1)"

definition effects :: "pm \<Rightarrow> pm \<Rightarrow> pm" where
  "effects prev cur =
     effect_afterHesitationMessage prev cur
      (effect_hesitationReachedZero prev cur
        (effect_hesitationCountdown prev cur
          (effect_startHesitation prev cur
            (effect_questionTimer prev cur
              (effect_reveal prev cur
                (effect_startQuestion prev cur
                  (effect_updateTimer prev cur cur)))))))"

text \<open>The union of the dependency lists: when none differs, no effect runs.\<close>

definition deps_changed :: "pm \<Rightarrow> pm \<Rightarrow> bool" where
  "deps_changed prev cur =
     (questions prev \<noteq> questions cur \<or> gameId prev \<noteq> gameId cur \<or> loading prev \<noteq> loading cur
      \<or> questionTime prev \<noteq> questionTime cur \<or> hesitationTime prev \<noteq> hesitationTime cur
      \<or> wpm prev \<noteq> wpm cur
      \<or> currentQuestionIndex prev \<noteq> currentQuestionIndex cur
      \<or> questionStartTime prev \<noteq> questionStartTime cur
      \<or> timer prev \<noteq> timer cur
      \<or> questionFullyRevealed prev \<noteq> questionFullyRevealed cur
      \<or> hasBuzzed prev \<noteq> hasBuzzed cur
      \<or> hesitationTimer prev \<noteq> hesitationTimer cur
      \<or> hesitationComplete prev \<noteq> hesitationComplete cur
      \<or> showResult prev \<noteq> showResult cur
      \<or> showHesitation prev \<noteq> showHesitation cur)"

text \<open>
  Rendering until no effect has anything left to do. React gives up after 50 nested
  updates ("Maximum update depth exceeded"); that is the result \<open>None\<close>.
\<close>

fun settle :: "nat \<Rightarrow> pm \<Rightarrow> pm \<Rightarrow> pm option" where
  "settle 0 prev cur = None"
| "settle (Suc k) prev cur =
     (if deps_changed prev cur then settle k cur (effects prev cur) else Some cur)"

definition render :: "pm \<Rightarrow> pm \<Rightarrow> pm option" where
  "render prev cur = settle 50 prev cur"

subsection \<open>The event loop\<close>

text \<open>
  The first branch of the loading effect, taken when the match page passes
  \<open>matchQuestions\<close> and a non-empty \<open>matchGameId\<close>: both are set together with
  \<open>loading = false\<close>. \<open>unmounted\<close> is the state of the first render. The other
  branch, which draws practice questions at random and creates a practice game, is not
  modelled.
\<close>

definition unmounted :: "int \<Rightarrow> int \<Rightarrow> rat \<Rightarrow> rat \<Rightarrow> pm" where
  "unmounted qt ht w t0 =
     \<lparr> questions = [], questionTime = qt, hesitationTime = ht, wpm = w,
       gameId = None, loading = True, currentQuestionIndex = 0, playerScore = 0,
       timer = qt, revealedWordsCount = 0, isQuestionLive = False, selectedAnswer = None,
       showResult = False, showCorrect = False, showIncorrect = False,
       questionStartTime = None, questionFullyRevealed = False, buzzTimes = [],
       correctBySubject = [], totalBySubject = [], hasBuzzed = False,
       showHesitation = False, hesitationTimer = None, hesitationComplete = False,
       clock = t0, timers = [], outcomes = [], endGameCalls = [] \<rparr>"

definition mount :: "int \<Rightarrow> int \<Rightarrow> rat \<Rightarrow> rat \<Rightarrow> Question list \<Rightarrow> string \<Rightarrow> pm option" where
  "mount qt ht w t0 matchQuestions matchGameId =
     (let st0 = unmounted qt ht w t0
      in render st0 (st0 \<lparr> questions := matchQuestions, gameId := Some matchGameId,
                           loading := False \<rparr>))"

text \<open>The index of the timer that fires next: the earliest, the oldest among equals.\<close>

fun earliest :: "pending list \<Rightarrow> nat option" where
  "earliest [] = None"
| "earliest (p # ps) =
     (case earliest ps of
        None \<Rightarrow> Some 0
      | Some i \<Rightarrow> if due (ps ! i) < due p then Some (Suc i) else Some 0)"

definition fire :: "nat \<Rightarrow> pm \<Rightarrow> pm option" where
  "fire i st =
     (let p = timers st ! i;
          rest = (case period p of
                    None \<Rightarrow> take i (timers st) @ drop (Suc i) (timers st)
                  | Some ms \<Rightarrow> (timers st)[i := p \<lparr> due := due p + ms \<rparr>]);
          st1 = st \<lparr> clock := max (clock st) (due p), timers := rest \<rparr>
      in render st (run_callback (cb p) st1))"

text \<open>
  Letting time pass until \<open>t\<close>: every timer due by then fires, in order. The first
  argument bounds the number of callbacks; \<open>None\<close> means the bound was too small (or a
  render did not settle).
\<close>

fun run_until :: "nat \<Rightarrow> rat \<Rightarrow> pm \<Rightarrow> pm option" where
  "run_until 0 t st = None"
| "run_until (Suc n) t st =
     (case earliest (timers st) of
        None \<Rightarrow> Some (st \<lparr> clock := max (clock st) t \<rparr>)
      | Some i \<Rightarrow>
          if due (timers st ! i) \<le> t
          then (case fire i st of None \<Rightarrow> None | Some st' \<Rightarrow> run_until n t st')
          else Some (st \<lparr> clock := max (clock st) t \<rparr>))"

text \<open>
  Clicks. The buzzer button is rendered while \<open>!hasBuzzed\<close> and disabled while
  \<open>!isQuestionLive\<close>; the answer buttons are rendered while \<open>hasBuzzed\<close>, for the
  answers of the current question, and disabled while \<open>showResult || hesitationComplete\<close>.
  Nothing but the back button is rendered while loading or without questions. A click is
  served by the handler of the render on the screen, which here is the render of the
  state \<open>st\<close> that the events before it have left: React renders again at the end of
  every click handler, before the next event is served, and the model renders after every
  timer callback as well (see \<open>fire\<close>).
\<close>

definition buzzer_enabled :: "pm \<Rightarrow> bool" where
  "buzzer_enabled st =
     (\<not> loading st \<and> currentQuestionIndex st < length (questions st)
      \<and> \<not> hasBuzzed st \<and> isQuestionLive st)"

definition click_buzzer :: "pm \<Rightarrow> pm option" where
  "click_buzzer st = (if buzzer_enabled st then render st (handleBuzz st st) else Some st)"

definition answer_enabled :: "string \<Rightarrow> pm \<Rightarrow> bool" where
  "answer_enabled answer st =
     (\<not> loading st \<and> currentQuestionIndex st < length (questions st)
      \<and> hasBuzzed st \<and> \<not> (showResult st \<or> hesitationComplete st)
      \<and> answer \<in> set (correctAnswer (questions st ! currentQuestionIndex st)
                        # distractors (questions st ! currentQuestionIndex st)))"

definition click_answer :: "string \<Rightarrow> pm \<Rightarrow> pm option" where
  "click_answer answer st =
     (if answer_enabled answer st then render st (handleAnswer (capture st) answer st)
      else Some st)"

subsection \<open>Sequences of buzz attempts\<close>

text \<open>
  A sequence of buzz attempts against one question, each a call of the handler at its own
  clock value. The call is made either by the handler of a new render, which has seen the
  updates of all the attempts before it (\<open>AfterRender\<close>), or by the handler of the same
  render as the attempt before it (\<open>SameRender\<close>; for the first attempt that is the
  render \<open>r\<close> that is given). An attempt wins when the guard of the handler lets it
  through.
\<close>

datatype 't attempt = AfterRender 't | SameRender 't

fun time_of :: "'t attempt \<Rightarrow> 't" where
  "time_of (AfterRender t) = t"
| "time_of (SameRender t) = t"

fun rerendered :: "'t attempt \<Rightarrow> bool" where
  "rerendered (AfterRender t) = True"
| "rerendered (SameRender t) = False"

fun buzz_attempts :: "rat attempt list \<Rightarrow> pm \<Rightarrow> pm \<Rightarrow> bool list \<times> pm" where
  "buzz_attempts [] r st = ([], st)"
| "buzz_attempts (a # as) r st =
     (let st1 = st \<lparr> clock := time_of a \<rparr>;
          r1 = (if rerendered a then st1 else r);
          won = (\<not> (hasBuzzed r1 \<or> questionStartTime r1 = None));
          res = buzz_attempts as r1 (handleBuzz r1 st1)
      in (won # fst res, snd res))"

fun buzzIn_attempts :: "int attempt list \<Rightarrow> GameState \<Rightarrow> GameState \<Rightarrow> bool list \<times> GameState" where
  "buzzIn_attempts [] gameState prev = ([], prev)"
| "buzzIn_attempts (a # as) gameState prev =
     (let g1 = (if rerendered a then prev else gameState);
          won = (\<not> (gs_hasBuzzed g1 \<or> \<not> gs_hasStarted g1));
          res = buzzIn_attempts as g1 (buzzIn (time_of a) g1 prev)
      in (won # fst res, snd res))"

section \<open>The document store (src/services/firestore.ts)\<close>

text \<open>
  The Firestore collections that the match engine reads and writes, as one record
  \<open>db\<close>. A collection whose documents get generated ids (\<open>doc(collection)\<close>) is a
  list, the position being the id; the games are a map from id to document. Server
  timestamps and the texts of notifications are left out. \<open>statusWrites\<close> is not a
  collection: it logs, in order, every write of a game's status (game id and status
  written), so that writes can be counted.
\<close>

datatype game_status = waiting | active | completed

datatype game_type = practice | match

record Game =
  g_type :: game_type
  g_playerId :: "string option"
  g_teamId :: "string option"
  g_coachId :: "string option"
  g_questionIds :: "string list"
  g_status :: game_status
  g_matchIdCode :: "string option"
  g_playerIds :: "string list option"
  g_endedAt :: bool

record MatchHistory =
  mh_gameId :: string
  mh_playerId :: string
  mh_teamId :: "string option"
  mh_type :: game_type
  mh_score :: nat
  mh_total :: nat
  mh_avgBuzzTime :: rat
  mh_correctBySubject :: "(string \<times> nat) list"
  mh_totalBySubject :: "(string \<times> nat) list option"
  mh_questionIds :: "string list"
  mh_hesitationCount :: nat

record Notification =
  n_userId :: string
  n_type :: string
  n_gameId :: string
  n_teamId :: "string option"
  n_read :: bool

record db =
  games :: "string \<rightharpoonup> Game"
  matchHistory :: "MatchHistory list"
  notifications :: "Notification list"
  teams :: "string \<rightharpoonup> string option"
  statusWrites :: "(string \<times> game_status) list"

text \<open>A string that JavaScript takes as true: defined and not empty.\<close>

definition nonempty :: "string option \<Rightarrow> string option" where
  "nonempty v = (case v of None \<Rightarrow> None | Some s \<Rightarrow> if s = [] then None else Some s)"

text \<open>
  \<open>createGame\<close>: the document is written under the generated id \<open>newId\<close>; optional
  fields are stored only when defined and not empty.
\<close>

definition createGame :: "string \<Rightarrow> Game \<Rightarrow> db \<Rightarrow> string \<times> db" where
  "createGame newId game d =
     (newId,
      d \<lparr> games := (games d)(newId \<mapsto>
             \<lparr> g_type = g_type game,
               g_playerId = nonempty (g_playerId game),
               g_teamId = nonempty (g_teamId game),
               g_coachId = nonempty (g_coachId game),
               g_questionIds = g_questionIds game,
               g_status = g_status game,
               g_matchIdCode = nonempty (g_matchIdCode game),
               g_playerIds = g_playerIds game,
               g_endedAt = False \<rparr>) \<rparr>)"

text \<open>
  \<open>updateGame(gameId, updates)\<close> with \<open>updates: Partial<Game>\<close>: the fields given
  are written, with no condition on what the document holds. \<open>updateDoc\<close> rejects when
  the document does not exist (\<open>None\<close>).
\<close>

record game_update =
  u_status :: "game_status option"
  u_endedAt :: bool
  u_matchIdCode :: "string option"

definition updateGame :: "string \<Rightarrow> game_update \<Rightarrow> db \<Rightarrow> db option" where
  "updateGame gid updates d =
     (case games d gid of
        None \<Rightarrow> None
      | Some g \<Rightarrow>
          (let g1 = (case u_status updates of None \<Rightarrow> g | Some s \<Rightarrow> g \<lparr> g_status := s \<rparr>);
               g2 = (if u_endedAt updates then g1 \<lparr> g_endedAt := True \<rparr> else g1);
               g3 = (case u_matchIdCode updates of None \<Rightarrow> g2
                     | Some c \<Rightarrow> g2 \<lparr> g_matchIdCode := Some c \<rparr>)
           in Some (d \<lparr> games := (games d)(gid \<mapsto> g3),
                        statusWrites :=
                          (case u_status updates of None \<Rightarrow> statusWrites d
                           | Some s \<Rightarrow> statusWrites d @ [(gid, s)]) \<rparr>)))"

definition getGame :: "string \<Rightarrow> db \<Rightarrow> Game option" where
  "getGame gid d = games d gid"

datatype join_error = MatchNotFound | AlreadyJoined | NotAcceptingPlayers

definition joinMatch :: "string \<Rightarrow> string \<Rightarrow> db \<Rightarrow> join_error + db" where
  "joinMatch gid playerId d =
     (case games d gid of
        None \<Rightarrow> Inl MatchNotFound
      | Some gameData \<Rightarrow>
          (let playerIds = (case g_playerIds gameData of None \<Rightarrow> [] | Some ps \<Rightarrow> ps)
           in if playerId \<in> set playerIds then Inl AlreadyJoined
              else if g_status gameData \<noteq> waiting then Inl NotAcceptingPlayers
              else Inr (d \<lparr> games := (games d)(gid \<mapsto>
                           gameData \<lparr> g_playerIds := Some (playerIds @ [playerId]) \<rparr>) \<rparr>)))"

definition getMatchHistoriesByGameId :: "string \<Rightarrow> db \<Rightarrow> MatchHistory list" where
  "getMatchHistoriesByGameId gid d = filter (\<lambda>m. mh_gameId m = gid) (matchHistory d)"

text \<open>
  \<open>createMatchHistory\<close>: a new document reference with a generated id, and
  \<open>setDoc\<close> on it. Nothing is read before the write.
\<close>

definition createMatchHistory :: "MatchHistory \<Rightarrow> db \<Rightarrow> nat \<times> db" where
  "createMatchHistory m d =
     (length (matchHistory d),
      d \<lparr> matchHistory := matchHistory d @
             [\<lparr> mh_gameId = mh_gameId m,
                mh_playerId = mh_playerId m,
                mh_teamId = nonempty (mh_teamId m),
                mh_type = mh_type m,
                mh_score = mh_score m,
                mh_total = mh_total m,
                mh_avgBuzzTime = mh_avgBuzzTime m,
                mh_correctBySubject = mh_correctBySubject m,
                mh_totalBySubject = mh_totalBySubject m,
                mh_questionIds = mh_questionIds m,
                mh_hesitationCount = mh_hesitationCount m \<rparr>] \<rparr>)"

definition createNotification :: "Notification \<Rightarrow> db \<Rightarrow> db" where
  "createNotification n d = d \<lparr> notifications := notifications d @ [n \<lparr> n_read := False \<rparr>] \<rparr>"

text \<open>\<open>getTeam\<close> gives the team document or \<open>null\<close>; of a team only \<open>coachId\<close> is used.\<close>

definition getTeam :: "string \<Rightarrow> db \<Rightarrow> string option option" where
  "getTeam tid d = teams d tid"

subsection \<open>Fetching questions by id\<close>

text \<open>
  One \<open>getDoc\<close> per id. The document exists, or it does not, or the read throws; the
  loop pushes the first and passes over the other two (the \<open>catch\<close> only logs).
\<close>

datatype 'a fetched = Found 'a | Missing | ReadError

fun fetch_loop :: "(string \<Rightarrow> Question fetched) \<Rightarrow> string list \<Rightarrow> Question list \<Rightarrow> Question list" where
  "fetch_loop getDoc [] qs = qs"
| "fetch_loop getDoc (questionId # ids) qs =
     (case getDoc questionId of
        Found data \<Rightarrow> fetch_loop getDoc ids (qs @ [data \<lparr> q_id := questionId \<rparr>])
      | Missing \<Rightarrow> fetch_loop getDoc ids qs
      | ReadError \<Rightarrow> fetch_loop getDoc ids qs)"

text \<open>
  \<open>questionIds.map(id => questions.find(q => q.id === id)).filter(q => q !== undefined)\<close>
\<close>

definition getQuestionsByIds :: "(string \<Rightarrow> Question fetched) \<Rightarrow> string list \<Rightarrow> Question list" where
  "getQuestionsByIds getDoc questionIds =
     (if questionIds = [] then []
      else let qs = fetch_loop getDoc questionIds []
           in List.map_filter (\<lambda>i. find (\<lambda>q. q_id q = i) qs) questionIds)"

subsection \<open>Loading a match session (MatchPlayPage.loadMatch)\<close>

text \<open>
  The effect of the match page that loads the match and its questions, up to the point
  where the questions are set; the game settings it reads afterwards are left out. The
  page renders the session component with the loaded questions.
\<close>

datatype load_error =
    NoGameId | MatchNotFoundOnLoad | MatchNotActive | NotPartOfMatch
  | NoQuestionsFound | MatchHasNoQuestions

datatype load_result = StillLoading | LoadFailed load_error | Loaded Game "Question list"

definition loadMatch :: "string option \<Rightarrow> string option \<Rightarrow> (string \<Rightarrow> Question fetched) \<Rightarrow> db
    \<Rightarrow> load_result" where
  "loadMatch gameIdParam userUid getDoc d =
     (case nonempty gameIdParam of
        None \<Rightarrow> LoadFailed NoGameId
      | Some gid \<Rightarrow>
     (case userUid of
        None \<Rightarrow> StillLoading
      | Some uid \<Rightarrow>
     (case getGame gid d of
        None \<Rightarrow> LoadFailed MatchNotFoundOnLoad
      | Some matchData \<Rightarrow>
          if g_status matchData \<noteq> active then LoadFailed MatchNotActive
          else if (case g_playerIds matchData of None \<Rightarrow> False | Some ps \<Rightarrow> uid \<notin> set ps)
          then LoadFailed NotPartOfMatch
          else if g_questionIds matchData \<noteq> []
          then (let matchQuestions = getQuestionsByIds getDoc (g_questionIds matchData)
                in if length matchQuestions = 0 then LoadFailed NoQuestionsFound
                   else Loaded matchData matchQuestions)
          else LoadFailed MatchHasNoQuestions)))"

subsection \<open>The result a session persists (endGame in PracticeMode.tsx)\<close>

text \<open>
  \<open>parseFloat(x.toFixed(2))\<close>, as rounding to hundredths.
\<close>

definition toFixed2 :: "rat \<Rightarrow> rat" where
  "toFixed2 x = of_int (round (x * 100)) / 100"

text \<open>
  The \<open>matchHistory\<close> object that \<open>endGame(finalScore)\<close> builds. The score is the
  argument; the buzz times and the two per-subject records are those of the closure
  \<open>endGame\<close> was taken from; \<open>hesitationCount\<close> is the literal 0.
\<close>

definition matchHistory_of :: "string \<Rightarrow> string \<Rightarrow> string option \<Rightarrow> bool \<Rightarrow> Question list
    \<Rightarrow> closure \<Rightarrow> nat \<Rightarrow> MatchHistory" where
  "matchHistory_of gid playerId teamId isMatch qs c finalScore =
     (let avgBuzzTime = (if length (c_buzzTimes c) > 0
                         then sum_list (c_buzzTimes c) / of_nat (length (c_buzzTimes c))
                         else 0)
      in \<lparr> mh_gameId = gid,
           mh_playerId = playerId,
           mh_teamId = teamId,
           mh_type = (if isMatch then match else practice),
           mh_score = finalScore,
           mh_total = length qs,
           mh_avgBuzzTime = toFixed2 avgBuzzTime,
           mh_correctBySubject = c_correctBySubject c,
           mh_totalBySubject = Some (c_totalBySubject c),
           mh_questionIds = map q_id qs,
           mh_hesitationCount = 0 \<rparr>)"

text \<open>
  What the calls of \<open>endGame\<close> recorded in a component state persist, for a player in a
  match: one \<open>createMatchHistory\<close> per call.
\<close>

definition persist_calls :: "string \<Rightarrow> string \<Rightarrow> string option \<Rightarrow> pm \<Rightarrow> db \<Rightarrow> db" where
  "persist_calls gid playerId teamId st d =
     foldl (\<lambda>d' call. snd (createMatchHistory
                (matchHistory_of gid playerId teamId True (questions st) (snd call) (fst call)) d'))
       d (endGameCalls st)"

definition sum_counts :: "(string \<times> nat) list \<Rightarrow> nat" where
  "sum_counts bySubject = sum_list (map snd bySubject)"

subsection \<open>The completion check at the end of a match session (endGame in PracticeMode.tsx)\<close>

text \<open>
  After its guards on the signed-in user, \<open>endGame\<close> is a sequence of awaited store
  operations. Each participant runs it in a browser of their own, so the operations of
  different callers interleave; between two awaits a caller only computes on what it has
  read. A caller is its local variables and the place it has reached; one step of a
  caller is one store operation together with the computation up to the next one (the
  notifications of a fan-out, which no caller reads, are one step). The operations on the
  \<open>users\<close> and \<open>players\<close> collections are left out, and a store operation fails
  only where the state of the store makes it fail (an update of a missing document).
\<close>

datatype pc =
    AtCreateMatchHistory | AtGetGame | AtGetHistories | AtRetry | AtDecide | AtFanOut
  | AtFallback | AtFallbackFanOut | Done

record caller =
  k_playerId :: string
  k_teamId :: "string option"
  k_matchGameId :: "string option"
  k_matchHistory :: MatchHistory
  k_pc :: pc
  k_gameData :: "Game option"
  k_completedPlayerIds :: "string list"
  k_navigated :: bool

definition playerIds_of :: "Game \<Rightarrow> string list" where
  "playerIds_of g = (case g_playerIds g of None \<Rightarrow> [] | Some ps \<Rightarrow> ps)"

text \<open>
  The coach to notify: the coach of the game's team when the game has a team, and else
  the game's own \<open>coachId\<close>.
\<close>

definition coach_of :: "Game \<Rightarrow> db \<Rightarrow> string option" where
  "coach_of gameData d =
     (case nonempty (g_teamId gameData) of
        Some t \<Rightarrow> (case getTeam t d of None \<Rightarrow> None | Some coachId \<Rightarrow> nonempty coachId)
      | None \<Rightarrow> nonempty (g_coachId gameData))"

definition match_end :: "caller \<Rightarrow> Game \<Rightarrow> string \<Rightarrow> string \<Rightarrow> Notification" where
  "match_end c gameData gid userId =
     \<lparr> n_userId = userId, n_type = ''match_end'', n_gameId = gid,
       n_teamId = (case nonempty (g_teamId gameData) of Some t \<Rightarrow> Some t | None \<Rightarrow> k_teamId c),
       n_read = False \<rparr>"

text \<open>The notification for the coach, if there is one, then one for each player of the roster.\<close>

definition fanOut :: "caller \<Rightarrow> Game \<Rightarrow> string \<Rightarrow> db \<Rightarrow> db" where
  "fanOut c gameData gid d =
     (let d1 = (case coach_of gameData d of
                  None \<Rightarrow> d
                | Some coachId \<Rightarrow> createNotification (match_end c gameData gid coachId) d)
      in foldl (\<lambda>d' pId. createNotification (match_end c gameData gid pId) d') d1
           (playerIds_of gameData))"

definition fallbackFanOut :: "caller \<Rightarrow> Game \<Rightarrow> string \<Rightarrow> db \<Rightarrow> db" where
  "fallbackFanOut c gameData gid d =
     (let d1 = (case coach_of gameData d of
                  None \<Rightarrow> d
                | Some coachId \<Rightarrow> createNotification (match_end c gameData gid coachId) d)
      in createNotification (match_end c gameData gid (k_playerId c)) d1)"

definition completing :: game_update where
  "completing = \<lparr> u_status = Some completed, u_endedAt = True, u_matchIdCode = None \<rparr>"

definition add_players :: "MatchHistory list \<Rightarrow> string list \<Rightarrow> string list" where
  "add_players allMatchHistories completedPlayerIds =
     foldl (\<lambda>s mh. List.insert (mh_playerId mh) s) completedPlayerIds allMatchHistories"

definition step_caller :: "caller \<Rightarrow> db \<Rightarrow> caller \<times> db" where
  "step_caller c d =
     (case k_pc c of
        AtCreateMatchHistory \<Rightarrow>
          (c \<lparr> k_pc := (if nonempty (k_matchGameId c) \<noteq> None then AtGetGame else Done) \<rparr>,
           snd (createMatchHistory (k_matchHistory c) d))
      | AtGetGame \<Rightarrow>
          (case k_matchGameId c of
             None \<Rightarrow> (c \<lparr> k_pc := Done \<rparr>, d)
           | Some gid \<Rightarrow>
              (case getGame gid d of
                 None \<Rightarrow> (c \<lparr> k_pc := AtFallback \<rparr>, d)
               | Some gameData \<Rightarrow>
                   if playerIds_of gameData = [] then (c \<lparr> k_pc := AtFallback \<rparr>, d)
                   else (c \<lparr> k_gameData := Some gameData,
                              k_completedPlayerIds := [k_playerId c],
                              k_pc := AtGetHistories \<rparr>, d)))
      | AtGetHistories \<Rightarrow>
          (case k_matchGameId c of
             None \<Rightarrow> (c \<lparr> k_pc := Done \<rparr>, d)
           | Some gid \<Rightarrow>
              (let allMatchHistories = getMatchHistoriesByGameId gid d
               in (c \<lparr> k_completedPlayerIds := add_players allMatchHistories (k_completedPlayerIds c),
                        k_pc := (if list_ex (\<lambda>mh. mh_playerId mh = k_playerId c) allMatchHistories
                                 then AtDecide else AtRetry) \<rparr>, d)))
      | AtRetry \<Rightarrow>
          (case k_matchGameId c of
             None \<Rightarrow> (c \<lparr> k_pc := Done \<rparr>, d)
           | Some gid \<Rightarrow>
              (let allMatchHistories = getMatchHistoriesByGameId gid d
               in (c \<lparr> k_completedPlayerIds := add_players allMatchHistories (k_completedPlayerIds c),
                        k_pc := AtDecide \<rparr>, d)))
      | AtDecide \<Rightarrow>
          (case (k_matchGameId c, k_gameData c) of
             (Some gid, Some gameData) \<Rightarrow>
               (let allPlayersCompleted =
                      list_all (\<lambda>pId. pId \<in> set (k_completedPlayerIds c)) (playerIds_of gameData)
                in if allPlayersCompleted
                   then (if g_status gameData \<noteq> completed
                         then (case updateGame gid completing d of
                                 None \<Rightarrow> (c \<lparr> k_pc := AtFallback \<rparr>, d)
                               | Some d' \<Rightarrow> (c \<lparr> k_pc := AtFanOut \<rparr>, d'))
                         else (c \<lparr> k_pc := Done, k_navigated := True \<rparr>, d))
                   else (c \<lparr> k_pc := Done \<rparr>, d))
           | _ \<Rightarrow> (c \<lparr> k_pc := Done \<rparr>, d))
      | AtFanOut \<Rightarrow>
          (case (k_matchGameId c, k_gameData c) of
             (Some gid, Some gameData) \<Rightarrow>
               (c \<lparr> k_pc := Done, k_navigated := True \<rparr>, fanOut c gameData gid d)
           | _ \<Rightarrow> (c \<lparr> k_pc := Done \<rparr>, d))
      | AtFallback \<Rightarrow>
          (case k_matchGameId c of
             None \<Rightarrow> (c \<lparr> k_pc := Done \<rparr>, d)
           | Some gid \<Rightarrow>
              (case getGame gid d of
                 None \<Rightarrow> (c \<lparr> k_pc := Done \<rparr>, d)
               | Some gameData \<Rightarrow>
                   if g_playerIds gameData = Some [k_playerId c]
                   then (case updateGame gid completing d of
                           None \<Rightarrow> (c \<lparr> k_pc := Done \<rparr>, d)
                         | Some d' \<Rightarrow> (c \<lparr> k_gameData := Some gameData, k_pc := AtFallbackFanOut \<rparr>, d'))
                   else (c \<lparr> k_pc := Done \<rparr>, d)))
      | AtFallbackFanOut \<Rightarrow>
          (case (k_matchGameId c, k_gameData c) of
             (Some gid, Some gameData) \<Rightarrow>
               (c \<lparr> k_pc := Done, k_navigated := True \<rparr>, fallbackFanOut c gameData gid d)
           | _ \<Rightarrow> (c \<lparr> k_pc := Done \<rparr>, d))
      | Done \<Rightarrow> (c, d))"

text \<open>
  The participants of a match and the store. A schedule names, step by step, the caller
  whose next operation the store serves.
\<close>

record sys =
  s_db :: db
  s_callers :: "caller list"

definition step :: "nat \<Rightarrow> sys \<Rightarrow> sys" where
  "step i s =
     (if i < length (s_callers s)
      then (let r = step_caller (s_callers s ! i) (s_db s)
            in s \<lparr> s_db := snd r, s_callers := (s_callers s)[i := fst r] \<rparr>)
      else s)"

definition run_schedule :: "nat list \<Rightarrow> sys \<Rightarrow> sys" where
  "run_schedule schedule s = foldl (\<lambda>s' i. step i s') s schedule"

text \<open>
  A caller reaches \<open>Done\<close> in at most 7 steps. Callers run one after another when each
  one's steps are served without another caller's in between.
\<close>

definition one_after_another :: "nat list \<Rightarrow> nat list" where
  "one_after_another order = concat (map (replicate 7) order)"

definition completing_writes :: "string \<Rightarrow> db \<Rightarrow> nat" where
  "completing_writes gid d = length (filter (\<lambda>w. w = (gid, completed)) (statusWrites d))"

definition match_end_count :: "string \<Rightarrow> db \<Rightarrow> nat" where
  "match_end_count gid d = length (filter (\<lambda>n. n_gameId n = gid) (notifications d))"

definition new_caller :: "string \<Rightarrow> string option \<Rightarrow> string \<Rightarrow> MatchHistory \<Rightarrow> caller" where
  "new_caller playerId teamId gid m =
     \<lparr> k_playerId = playerId, k_teamId = teamId, k_matchGameId = Some gid,
       k_matchHistory = m, k_pc = AtCreateMatchHistory, k_gameData = None,
       k_completedPlayerIds = [], k_navigated = False \<rparr>"

subsection \<open>The coach's page of a match (CreateMatch)\<close>

text \<open>
  The page keeps a copy of the match document (\<open>match\<close>), refreshed by the snapshot
  listener, the players that joined, and \<open>showResults\<close>. The buttons to begin and to
  cancel are rendered while there is a match and the results are not shown; the begin
  button is disabled while nobody has joined or the copy says \<open>active\<close>.
\<close>

record page =
  cm_match :: "(string \<times> Game) option"
  cm_joinedPlayers :: "string list"
  cm_selectedQuestions :: "string list"
  cm_showResults :: bool

definition handleCreateMatch :: "string \<Rightarrow> string option \<Rightarrow> string \<Rightarrow> string \<Rightarrow> page \<Rightarrow> db
    \<Rightarrow> page \<times> db" where
  "handleCreateMatch newId teamId uid code p d =
     (if cm_selectedQuestions p = [] then (p, d)
      else if nonempty teamId = None then (p, d)
      else let r = createGame newId
                     \<lparr> g_type = match, g_playerId = None, g_teamId = teamId,
                       g_coachId = Some uid, g_questionIds = cm_selectedQuestions p,
                       g_status = waiting, g_matchIdCode = None, g_playerIds = Some [],
                       g_endedAt = False \<rparr> d
           in (case updateGame (fst r)
                      \<lparr> u_status = None, u_endedAt = False, u_matchIdCode = Some code \<rparr> (snd r) of
                 None \<Rightarrow> (p, snd r)
               | Some d2 \<Rightarrow>
                   (case getGame (fst r) d2 of
                      None \<Rightarrow> (p, d2)
                    | Some createdMatch \<Rightarrow> (p \<lparr> cm_match := Some (fst r, createdMatch) \<rparr>, d2))))"

definition handleBeginMatch :: "page \<Rightarrow> db \<Rightarrow> page \<times> db" where
  "handleBeginMatch p d =
     (case cm_match p of
        None \<Rightarrow> (p, d)
      | Some (gid, m) \<Rightarrow>
          if cm_joinedPlayers p = [] then (p, d)
          else (case updateGame gid \<lparr> u_status = Some active, u_endedAt = False, u_matchIdCode = None \<rparr> d of
                  None \<Rightarrow> (p, d)
                | Some d' \<Rightarrow> (p, d')))"

definition handleCancelMatch :: "bool \<Rightarrow> page \<Rightarrow> db \<Rightarrow> page \<times> db" where
  "handleCancelMatch confirmed p d =
     (case cm_match p of
        None \<Rightarrow> (p, d)
      | Some (gid, m) \<Rightarrow>
          if \<not> confirmed then (p, d)
          else (case updateGame gid \<lparr> u_status = Some completed, u_endedAt = False, u_matchIdCode = None \<rparr> d of
                  None \<Rightarrow> (p, d)
                | Some d' \<Rightarrow>
                    (p \<lparr> cm_match := None, cm_selectedQuestions := [], cm_joinedPlayers := [] \<rparr>, d')))"

text \<open>The snapshot listener on the match document, with the refresh of the joined players.\<close>

definition onSnapshot :: "string list \<Rightarrow> page \<Rightarrow> db \<Rightarrow> page" where
  "onSnapshot teamPlayers p d =
     (case cm_match p of
        None \<Rightarrow> p
      | Some (gid, m) \<Rightarrow>
          (case games d gid of
             None \<Rightarrow> p
           | Some updatedMatch \<Rightarrow>
               p \<lparr> cm_match := Some (gid, updatedMatch),
                   cm_showResults := (if g_status updatedMatch = completed then True
                                      else cm_showResults p),
                   cm_joinedPlayers :=
                     filter (\<lambda>u. u \<in> set (playerIds_of updatedMatch)) teamPlayers \<rparr>))"

definition buttons_rendered :: "page \<Rightarrow> bool" where
  "buttons_rendered p = (cm_match p \<noteq> None \<and> \<not> cm_showResults p)"

definition begin_disabled :: "page \<Rightarrow> bool" where
  "begin_disabled p =
     (cm_joinedPlayers p = []
      \<or> (case cm_match p of None \<Rightarrow> False | Some (gid, m) \<Rightarrow> g_status m = active))"

definition click_begin :: "page \<Rightarrow> db \<Rightarrow> page \<times> db" where
  "click_begin p d =
     (if buttons_rendered p \<and> \<not> begin_disabled p then handleBeginMatch p d else (p, d))"

definition click_cancel :: "bool \<Rightarrow> page \<Rightarrow> db \<Rightarrow> page \<times> db" where
  "click_cancel confirmed p d =
     (if buttons_rendered p then handleCancelMatch confirmed p d else (p, d))"

text \<open>The order of the three statuses.\<close>

fun rank :: "game_status \<Rightarrow> nat" where
  "rank waiting = 0"
| "rank active = 1"
| "rank completed = 2"

text \<open>
  The operations that touch a match document: a player joining, the coach's clicks (the
  begin click on a page that has just received the document), a step of a participant's
  completion check, and the creation of another game under a new id.
\<close>

datatype match_op =
    OpJoin string string
  | OpBegin "string list" page
  | OpCancel bool page
  | OpCheckStep caller
  | OpCreate string Game

fun apply_op :: "match_op \<Rightarrow> db \<Rightarrow> db" where
  "apply_op (OpJoin gid playerId) d = (case joinMatch gid playerId d of Inl e \<Rightarrow> d | Inr d' \<Rightarrow> d')"
| "apply_op (OpBegin teamPlayers p) d = snd (click_begin (onSnapshot teamPlayers p d) d)"
| "apply_op (OpCancel confirmed p) d = snd (click_cancel confirmed p d)"
| "apply_op (OpCheckStep c) d = snd (step_caller c d)"
| "apply_op (OpCreate newId game) d = (if newId \<in> dom (games d) then d else snd (createGame newId game d))"

subsection \<open>Counting and reference definitions used by the properties\<close>

text \<open>The number of result entries stored for a match and a participant.\<close>

definition entries_for :: "string \<Rightarrow> string \<Rightarrow> db \<Rightarrow> nat" where
  "entries_for gid playerId d =
     length (filter (\<lambda>m. mh_gameId m = gid \<and> mh_playerId m = playerId) (matchHistory d))"

text \<open>
  The questions that exist among the requested ids, in the order of the request: what
  fetching by ids amounts to (proved below).
\<close>

definition found_questions :: "(string \<Rightarrow> Question fetched) \<Rightarrow> string list \<Rightarrow> Question list" where
  "found_questions getDoc ids =
     concat (map (\<lambda>i. case getDoc i of Found data \<Rightarrow> [data \<lparr> q_id := i \<rparr>]
                                   | Missing \<Rightarrow> [] | ReadError \<Rightarrow> []) ids)"


subsection \<open>Observing a session\<close>

text \<open>
  Letting time pass to each of a list of instants in turn, and keeping the state seen at
  each.
\<close>

fun timeline :: "nat \<Rightarrow> rat list \<Rightarrow> pm \<Rightarrow> pm list option" where
  "timeline n [] st = Some []"
| "timeline n (t # ts) st =
     (case run_until n t st of
        None \<Rightarrow> None
      | Some st1 \<Rightarrow> (case timeline n ts st1 of None \<Rightarrow> None | Some r \<Rightarrow> Some (st1 # r)))"

text \<open>The sums over all subjects of the per-subject counts of a session.\<close>

definition attempted_total :: "pm \<Rightarrow> nat" where
  "attempted_total st = sum_counts (totalBySubject st)"

definition correct_total :: "pm \<Rightarrow> nat" where
  "correct_total st = sum_counts (correctBySubject st)"

definition question_count :: "pm \<Rightarrow> nat" where
  "question_count st = length (questions st)"

definition empty_db :: db where
  "empty_db = \<lparr> games = Map.empty, matchHistory = [], notifications = [], teams = Map.empty,
                statusWrites = [] \<rparr>"

text \<open>The result entries that the \<open>endGame\<close> calls of a session write.\<close>

definition persisted :: "string \<Rightarrow> string \<Rightarrow> string option \<Rightarrow> pm \<Rightarrow> MatchHistory list" where
  "persisted gid playerId teamId st = matchHistory (persist_calls gid playerId teamId st empty_db)"

definition hesitation_counts :: "pm \<Rightarrow> nat list" where
  "hesitation_counts st = map mh_hesitationCount (persisted ''g1'' ''p1'' (Some ''t1'') st)"


subsection \<open>A completion check that nothing interrupts\<close>

text \<open>The participants that have a result entry for a match.\<close>

definition results_of :: "string \<Rightarrow> db \<Rightarrow> string set" where
  "results_of gid d = mh_playerId ` set (getMatchHistoriesByGameId gid d)"

text \<open>The number of notifications of one fan-out: the roster and, if one is found, the coach.\<close>

definition fan_size :: "Game \<Rightarrow> db \<Rightarrow> nat" where
  "fan_size g d = length (playerIds_of g) + (case coach_of g d of None \<Rightarrow> 0 | Some coachId \<Rightarrow> 1)"

text \<open>
  A participant who has just finished the session of match \<open>gid\<close>: about to write the
  result entry, which carries the match and the participant's own id.
\<close>

definition fresh_for :: "string \<Rightarrow> caller \<Rightarrow> bool" where
  "fresh_for gid c =
     (k_pc c = AtCreateMatchHistory \<and> k_matchGameId c = Some gid \<and> gid \<noteq> []
      \<and> mh_gameId (k_matchHistory c) = gid \<and> mh_playerId (k_matchHistory c) = k_playerId c)"

text \<open>
  What the steps of one such participant do to the store when no other caller's step
  comes in between (proved below): the result entry is written; then, if the match
  exists, has a roster, every member of the roster has a result entry and the status read
  is not \<open>completed\<close>, the status is written and the fan-out follows.
\<close>

definition check_alone :: "string \<Rightarrow> caller \<Rightarrow> db \<Rightarrow> db" where
  "check_alone gid c d =
     (let d1 = snd (createMatchHistory (k_matchHistory c) d)
      in case games d1 gid of
           None \<Rightarrow> d1
         | Some g \<Rightarrow>
             if playerIds_of g \<noteq> [] \<and> set (playerIds_of g) \<subseteq> results_of gid d1
                \<and> g_status g \<noteq> completed
             then (case updateGame gid completing d1 of
                     None \<Rightarrow> d1
                   | Some d2 \<Rightarrow> fanOut c g gid d2)
             else d1)"


text \<open>A number of consecutive steps of one caller.\<close>

fun steps_caller :: "nat \<Rightarrow> caller \<Rightarrow> db \<Rightarrow> caller \<times> db" where
  "steps_caller 0 c d = (c, d)"
| "steps_caller (Suc n) c d = steps_caller n (fst (step_caller c d)) (snd (step_caller c d))"


subsection \<open>Schedules that do not interrupt a check\<close>

text \<open>
  A caller is \<open>reading\<close> from the step after its read of the match document up to its
  decision: it holds a copy of the document and has not yet written the status or
  finished without writing. It is \<open>in_check\<close> from the step after the write of its
  result entry up to that decision.
\<close>

definition reading :: "caller \<Rightarrow> bool" where
  "reading c = (k_pc c = AtGetHistories \<or> k_pc c = AtRetry \<or> k_pc c = AtDecide)"

definition in_check :: "caller \<Rightarrow> bool" where
  "in_check c = (k_pc c = AtGetGame \<or> reading c)"

text \<open>
  A schedule is uninterrupted when no step of a caller falls between another caller's
  read of the match document and that caller's decision: at every step, a caller that is
  reading is the one that is served. The callers may interleave in every other way.
\<close>

fun uninterrupted :: "nat list \<Rightarrow> sys \<Rightarrow> bool" where
  "uninterrupted [] s = True"
| "uninterrupted (i # schedule) s =
     (list_all (\<lambda>j. reading (s_callers s ! j) \<longrightarrow> j = i) [0..<length (s_callers s)]
      \<and> uninterrupted schedule (step i s))"

text \<open>The callers that have written the status and not yet sent their notifications.\<close>

definition writers_waiting :: "sys \<Rightarrow> nat" where
  "writers_waiting s = length (filter (\<lambda>c. k_pc c = AtFanOut) (s_callers s))"

text \<open>
  What is known of a caller that started as a participant who has just finished the
  session of match \<open>gid\<close>, at each place it can have reached, relative to the match \<open>g\<close>
  and the store \<open>d\<close>: after its own write, its result entry is in the store; while it
  is reading, the copy it holds is the document in the store, and when it decides, the
  participants it has seen are those that have a result entry.
\<close>

definition caller_inv :: "string \<Rightarrow> Game \<Rightarrow> db \<Rightarrow> caller \<Rightarrow> bool" where
  "caller_inv gid g d c =
     (k_matchGameId c = Some gid \<and> gid \<noteq> []
      \<and> mh_gameId (k_matchHistory c) = gid \<and> mh_playerId (k_matchHistory c) = k_playerId c
      \<and> (case k_pc c of
            AtCreateMatchHistory \<Rightarrow> True
          | AtGetGame \<Rightarrow> k_playerId c \<in> results_of gid d
          | AtGetHistories \<Rightarrow>
              k_gameData c = games d gid \<and> k_playerId c \<in> results_of gid d
              \<and> set (k_completedPlayerIds c) \<subseteq> results_of gid d \<and> playerIds_of g \<noteq> []
          | AtRetry \<Rightarrow> False
          | AtDecide \<Rightarrow>
              k_gameData c = games d gid \<and> set (k_completedPlayerIds c) = results_of gid d
          | AtFanOut \<Rightarrow>
              (\<exists>gd. k_gameData c = Some gd
                 \<and> gd \<lparr> g_status := g_status g, g_endedAt := g_endedAt g \<rparr> = g)
          | AtFallback \<Rightarrow> playerIds_of g = []
          | AtFallbackFanOut \<Rightarrow> False
          | Done \<Rightarrow> True))"

text \<open>
  The invariant of the match \<open>gid\<close> under the steps of an uninterrupted schedule,
  relative to the match document \<open>g\<close> and the store \<open>d0\<close> at the start. The document
  differs from \<open>g\<close> in status and end time at most; either the status has not been
  written and is that of \<open>g\<close>, or it has been written once and is \<open>completed\<close>; the
  notifications sent are those of one fan-out for every write whose writer has taken its
  fan-out step; and when every member of the roster has a result entry, the status is
  \<open>completed\<close>, or some caller is still checking, or no caller has started.
\<close>

definition check_inv :: "string \<Rightarrow> Game \<Rightarrow> db \<Rightarrow> sys \<Rightarrow> bool" where
  "check_inv gid g d0 s =
     ((\<exists>g'. games (s_db s) gid = Some g'
         \<and> g' \<lparr> g_status := g_status g, g_endedAt := g_endedAt g \<rparr> = g
         \<and> ((completing_writes gid (s_db s) = 0 \<and> g_status g' = g_status g)
             \<or> (completing_writes gid (s_db s) = 1 \<and> g_status g' = completed)))
      \<and> teams (s_db s) = teams d0
      \<and> (\<forall>j<length (s_callers s). caller_inv gid g (s_db s) (s_callers s ! j))
      \<and> writers_waiting s \<le> completing_writes gid (s_db s)
      \<and> match_end_count gid (s_db s) + writers_waiting s * fan_size g d0
          = match_end_count gid d0 + completing_writes gid (s_db s) * fan_size g d0
      \<and> (playerIds_of g \<noteq> [] \<and> set (playerIds_of g) \<subseteq> results_of gid (s_db s) \<longrightarrow>
            map_option g_status (games (s_db s) gid) = Some completed
            \<or> (\<exists>j<length (s_callers s). in_check (s_callers s ! j))
            \<or> (\<forall>j<length (s_callers s). k_pc (s_callers s ! j) = AtCreateMatchHistory)))"


section \<open>Example data\<close>

definition example_question :: Question where
  "example_question =
     \<lparr> q_id = ''q1'', questionText = ''Which planet is known as the red planet today'',
       correctAnswer = ''Mars'', distractors = [''Venus'', ''Jupiter''],
       subjectArea = ''SC'' \<rparr>"

definition example_live :: pm where
  "example_live =
     (unmounted 10 5 150 0)
       \<lparr> questions := [example_question], gameId := Some ''g1'', loading := False,
         isQuestionLive := True, questionStartTime := Some 0 \<rparr>"

definition example_ctx_question :: ctx_question where
  "example_ctx_question =
     \<lparr> cq_id = ''1'', cq_subject = ''Science'', cq_question = ''Which planet is red'',
       cq_answers = (''Mars'', ''Venus'', ''Jupiter'', ''Saturn''), cq_correct = ''A'' \<rparr>"

definition example_settings :: GameSettings where
  "example_settings = \<lparr> readingSpeed = 150, questionTimer = 30, hesitationTimerSetting = 5 \<rparr>"


definition example_game :: Game where
  "example_game =
     \<lparr> g_type = match, g_playerId = None, g_teamId = Some ''t1'', g_coachId = Some ''coach'',
       g_questionIds = [''q1'', ''q2''], g_status = active, g_matchIdCode = Some ''ABC123'',
       g_playerIds = Some [''p1'', ''p2''], g_endedAt = False \<rparr>"

definition example_db :: db where
  "example_db =
     \<lparr> games = [''g1'' \<mapsto> example_game], matchHistory = [], notifications = [],
       teams = [''t1'' \<mapsto> Some ''coach''], statusWrites = [] \<rparr>"

definition example_closure :: closure where
  "example_closure =
     \<lparr> c_currentQuestionIndex = 0, c_playerScore = 0, c_buzzTimes = [],
       c_correctBySubject = [], c_totalBySubject = [] \<rparr>"

definition example_history :: "string \<Rightarrow> MatchHistory" where
  "example_history playerId =
     matchHistory_of ''g1'' playerId (Some ''t1'') True [example_question] example_closure 0"

text \<open>A question bank in which \<open>q1\<close> exists and nothing else does.\<close>

definition example_bank :: "string \<Rightarrow> Question fetched" where
  "example_bank i = (if i = ''q1'' then Found example_question else Missing)"


definition ten_word_question :: Question where
  "ten_word_question =
     \<lparr> q_id = ''q10'', questionText = ''Which planet in our solar system is called red planet'',
       correctAnswer = ''Mars'', distractors = [''Venus'', ''Jupiter'', ''Saturn''],
       subjectArea = ''SC'' \<rparr>"

text \<open>A session of one question in which nobody buzzes.\<close>

definition example_timeout_session :: "pm option" where
  "example_timeout_session =
     Option.bind (mount 10 5 150 0 [example_question] ''g1'') (run_until 100 20000)"

text \<open>A session of one question: a buzz after one second, and then no answer.\<close>

definition example_hesitation_session :: "pm option" where
  "example_hesitation_session =
     Option.bind (Option.bind (Option.bind (mount 10 5 150 0 [example_question] ''g1'')
       (run_until 100 1000)) click_buzzer) (run_until 100 20000)"

text \<open>
  A session of one question: a buzz after one second, the hesitation countdown of 5
  seconds runs out at 6 seconds, and the participant clicks the right answer half a second
  later, while the hesitation message is shown.
\<close>

definition example_late_answer_session :: "pm option" where
  "example_late_answer_session =
     Option.bind (Option.bind (Option.bind (Option.bind (Option.bind
       (mount 10 5 150 0 [example_question] ''g1'')
       (run_until 100 1000)) click_buzzer) (run_until 100 6500)) (click_answer ''Mars''))
       (run_until 100 20000)"


definition example_waiting_db :: db where
  "example_waiting_db =
     example_db \<lparr> games := [''g1'' \<mapsto> example_game \<lparr> g_status := waiting \<rparr>] \<rparr>"

definition example_page :: page where
  "example_page =
     \<lparr> cm_match = Some (''g1'', example_game \<lparr> g_status := waiting \<rparr>),
       cm_joinedPlayers = [''p1'', ''p2''], cm_selectedQuestions = [''q1'', ''q2''],
       cm_showResults = False \<rparr>"


text \<open>
  The two participants of the example match, both at the end of their sessions.
\<close>

definition example_race :: sys where
  "example_race =
     \<lparr> s_db = example_db,
       s_callers = [new_caller ''p1'' (Some ''t1'') ''g1'' (example_history ''p1''),
                    new_caller ''p2'' (Some ''t1'') ''g1'' (example_history ''p2'')] \<rparr>"


text \<open>A session of one question: a buzz after one second and the right answer a second later.\<close>

definition example_correct_session :: "pm option" where
  "example_correct_session =
     Option.bind (Option.bind (Option.bind (Option.bind (Option.bind
       (mount 10 5 150 0 [example_question] ''g1'')
       (run_until 100 1000)) click_buzzer) (run_until 100 2000)) (click_answer ''Mars''))
       (run_until 100 20000)"


section \<open>Properties of the legacy session engine\<close>





section \<open>Properties of the buzz\<close>

lemma handleBuzz_rejected:
  "hasBuzzed r \<or> questionStartTime r = None \<Longrightarrow> handleBuzz r st = st"
  by (auto simp: handleBuzz_def split: option.splits)

lemma handleBuzz_accepted:
  assumes "\<not> hasBuzzed r" and "questionStartTime r = Some t0"
  shows "hasBuzzed (handleBuzz r st)"
    and "buzzTimes (handleBuzz r st) = buzzTimes st @ [(clock st - t0) / 1000]"
    and "clock (handleBuzz r st) = clock st"
    and "questionStartTime (handleBuzz r st) = questionStartTime st"
  using assms by (simp_all add: handleBuzz_def clearTimers_def)

text \<open>Attempts from renders that show the question locked, or not yet live, all lose.\<close>

lemma buzz_attempts_rejected:
  "hasBuzzed r \<or> questionStartTime r = None \<Longrightarrow> hasBuzzed st \<or> questionStartTime st = None \<Longrightarrow>
   buzz_attempts as r st
     = (replicate (length as) False, st \<lparr> clock := last (clock st # map time_of as) \<rparr>)"
proof (induction as arbitrary: r st)
  case Nil
  then show ?case by simp
next
  case (Cons a as)
  let ?st1 = "st \<lparr> clock := time_of a \<rparr>"
  let ?r1 = "if rerendered a then ?st1 else r"
  have g: "hasBuzzed ?st1 \<or> questionStartTime ?st1 = None" using Cons.prems(2) by simp
  have gr: "hasBuzzed ?r1 \<or> questionStartTime ?r1 = None" using Cons.prems(1) g by simp
  have h: "handleBuzz ?r1 ?st1 = ?st1" by (rule handleBuzz_rejected[OF gr])
  show ?case using Cons.IH[OF gr g] gr by (simp add: h Let_def)
qed

text \<open>Attempts from one render that shows the question live and unlocked all win.\<close>

lemma buzz_attempts_same_render:
  "\<not> hasBuzzed r \<Longrightarrow> questionStartTime r = Some t0 \<Longrightarrow> \<forall>x\<in>set as. \<not> rerendered x \<Longrightarrow>
   fst (buzz_attempts as r st) = replicate (length as) True
   \<and> buzzTimes (snd (buzz_attempts as r st))
       = buzzTimes st @ map (\<lambda>x. (time_of x - t0) / 1000) as
   \<and> hasBuzzed (snd (buzz_attempts as r st)) = (hasBuzzed st \<or> as \<noteq> [])"
proof (induction as arbitrary: st)
  case Nil
  then show ?case by simp
next
  case (Cons a as)
  let ?st1 = "st \<lparr> clock := time_of a \<rparr>"
  have nr: "\<not> rerendered a" and rest: "\<forall>x\<in>set as. \<not> rerendered x" using Cons.prems(3) by simp_all
  note acc = handleBuzz_accepted[OF Cons.prems(1) Cons.prems(2), of ?st1]
  from Cons.IH[OF Cons.prems(1) Cons.prems(2) rest, of "handleBuzz r ?st1"]
  show ?case using nr Cons.prems(1) Cons.prems(2) acc by (simp add: Let_def)
qed

lemma buzz_attempts_append_same_render:
  "\<forall>x\<in>set as. \<not> rerendered x \<Longrightarrow>
   buzz_attempts (as @ bs) r st
     = (fst (buzz_attempts as r st) @ fst (buzz_attempts bs r (snd (buzz_attempts as r st))),
        snd (buzz_attempts bs r (snd (buzz_attempts as r st))))"
  by (induction as arbitrary: st) (simp_all add: Let_def)

lemma buzz_attempts_after_lock:
  assumes "hasBuzzed st" and "rest = [] \<or> rerendered (hd rest)"
  shows "buzz_attempts rest r st
     = (replicate (length rest) False, st \<lparr> clock := last (clock st # map time_of rest) \<rparr>)"
proof (cases rest)
  case Nil
  then show ?thesis by simp
next
  case (Cons b bs)
  let ?st1 = "st \<lparr> clock := time_of b \<rparr>"
  have rb: "rerendered b" using assms(2) Cons by simp
  have g: "hasBuzzed ?st1 \<or> questionStartTime ?st1 = None" using assms(1) by simp
  have h: "handleBuzz ?st1 ?st1 = ?st1" by (rule handleBuzz_rejected[OF g])
  show ?thesis
    using buzz_attempts_rejected[OF g g, of bs] assms(1) rb by (simp add: Cons h Let_def)
qed

lemma buzzIn_rejected:
  "gs_hasBuzzed g \<or> \<not> gs_hasStarted g \<Longrightarrow> buzzIn t g prev = prev"
  by (auto simp: buzzIn_def)

lemma buzzIn_attempts_rejected:
  "gs_hasBuzzed g \<or> \<not> gs_hasStarted g \<Longrightarrow> gs_hasBuzzed prev \<or> \<not> gs_hasStarted prev \<Longrightarrow>
   buzzIn_attempts as g prev = (replicate (length as) False, prev)"
proof (induction as arbitrary: g)
  case Nil
  then show ?case by simp
next
  case (Cons a as)
  let ?g1 = "if rerendered a then prev else g"
  have gr: "gs_hasBuzzed ?g1 \<or> \<not> gs_hasStarted ?g1" using Cons.prems by simp
  have h: "buzzIn (time_of a) ?g1 prev = prev" by (rule buzzIn_rejected[OF gr])
  show ?case using Cons.IH[OF gr Cons.prems(2)] gr by (simp add: h Let_def)
qed

lemma buzzIn_attempts_same_render:
  "\<not> gs_hasBuzzed g \<Longrightarrow> gs_hasStarted g \<Longrightarrow> \<forall>x\<in>set as. \<not> rerendered x \<Longrightarrow>
   fst (buzzIn_attempts as g prev) = replicate (length as) True
   \<and> gs_buzzTime (snd (buzzIn_attempts as g prev))
       = (if as = [] then gs_buzzTime prev else Some (time_of (last as)))
   \<and> gs_hasBuzzed (snd (buzzIn_attempts as g prev)) = (gs_hasBuzzed prev \<or> as \<noteq> [])"
proof (induction as arbitrary: prev)
  case Nil
  then show ?case by simp
next
  case (Cons a as)
  have nr: "\<not> rerendered a" and rest: "\<forall>x\<in>set as. \<not> rerendered x" using Cons.prems(3) by simp_all
  from Cons.IH[OF Cons.prems(1) Cons.prems(2) rest, of "buzzIn (time_of a) g prev"]
  show ?case using nr Cons.prems(1) Cons.prems(2) by (simp add: Let_def buzzIn_def)
qed

lemma buzzIn_attempts_append_same_render:
  "\<forall>x\<in>set as. \<not> rerendered x \<Longrightarrow>
   buzzIn_attempts (as @ bs) g prev
     = (fst (buzzIn_attempts as g prev) @ fst (buzzIn_attempts bs g (snd (buzzIn_attempts as g prev))),
        snd (buzzIn_attempts bs g (snd (buzzIn_attempts as g prev))))"
  by (induction as arbitrary: prev) (simp_all add: Let_def)

lemma buzzIn_attempts_after_lock:
  assumes "gs_hasBuzzed prev" and "rest = [] \<or> rerendered (hd rest)"
  shows "buzzIn_attempts rest g prev = (replicate (length rest) False, prev)"
proof (cases rest)
  case Nil
  then show ?thesis by simp
next
  case (Cons b bs)
  have rb: "rerendered b" using assms(2) Cons by simp
  have g: "gs_hasBuzzed prev \<or> \<not> gs_hasStarted prev" using assms(1) by simp
  have h: "buzzIn (time_of b) prev prev = prev" by (rule buzzIn_rejected[OF g])
  show ?thesis
    using buzzIn_attempts_rejected[OF g g, of bs] assms(1) rb by (simp add: Cons h Let_def)
qed

text \<open>
  The render that follows an accepted buzz settles. While the question is locked and no
  dependency of the effects that start a question or reset the timer has changed, an
  effect can only arm or clear timers, start the hesitation countdown where there was
  none, or show the hesitation message where it was not shown; each of the last two
  happens at most once, so that after a few rounds no dependency changes any more.
\<close>

lemma settle_more_fuel:
  "settle k prev cur = Some st' \<Longrightarrow> settle (k + m) prev cur = Some st'"
proof (induction k arbitrary: prev cur)
  case 0
  then show ?case by simp
next
  case (Suc k)
  show ?case
  proof (cases "deps_changed prev cur")
    case True
    then have "settle k cur (effects prev cur) = Some st'" using Suc.prems by simp
    from Suc.IH[OF this] show ?thesis using True by simp
  next
    case False
    then show ?thesis using Suc.prems by simp
  qed
qed

lemma effect_updateTimer_skipped:
  "questionTime prev = questionTime cur \<Longrightarrow> questionStartTime prev = questionStartTime cur \<Longrightarrow>
   effect_updateTimer prev cur acc = acc"
  by (simp add: effect_updateTimer_def)

lemma effect_startQuestion_skipped:
  assumes "questions prev = questions cur" and "gameId prev = gameId cur"
    and "currentQuestionIndex prev = currentQuestionIndex cur"
    and "questionStartTime prev = questionStartTime cur" and "loading prev = loading cur"
  shows "effect_startQuestion prev cur acc = acc"
  using assms by (simp add: effect_startQuestion_def)

lemma effect_reveal_timers:
  "\<exists>T. effect_reveal prev cur acc = acc \<lparr> timers := T \<rparr>"
  by (rule exI[of _ "timers (effect_reveal prev cur acc)"])
     (simp add: effect_reveal_def clearTimers_def setInterval_def Let_def)

lemma effect_questionTimer_timers:
  "hasBuzzed cur \<Longrightarrow> \<exists>T. effect_questionTimer prev cur acc = acc \<lparr> timers := T \<rparr>"
  by (rule exI[of _ "timers (effect_questionTimer prev cur acc)"])
     (simp add: effect_questionTimer_def clearTimers_def Let_def)

lemma effect_startHesitation_sets:
  "effect_startHesitation prev cur acc = acc
   \<or> hesitationTimer cur = None
     \<and> effect_startHesitation prev cur acc = acc \<lparr> hesitationTimer := Some (hesitationTime cur) \<rparr>"
  by (simp add: effect_startHesitation_def)

lemma effect_hesitationCountdown_timers:
  "\<exists>T. effect_hesitationCountdown prev cur acc = acc \<lparr> timers := T \<rparr>"
  by (rule exI[of _ "timers (effect_hesitationCountdown prev cur acc)"])
     (simp add: effect_hesitationCountdown_def clearTimers_def setInterval_def Let_def
      split: option.splits)

lemma effect_hesitationReachedZero_sets:
  "effect_hesitationReachedZero prev cur acc = acc
   \<or> \<not> showHesitation cur
     \<and> effect_hesitationReachedZero prev cur acc = acc \<lparr> showHesitation := True \<rparr>"
  by (simp add: effect_hesitationReachedZero_def)

lemma effect_afterHesitationMessage_timers:
  "\<exists>T. effect_afterHesitationMessage prev cur acc = acc \<lparr> timers := T \<rparr>"
  by (rule exI[of _ "timers (effect_afterHesitationMessage prev cur acc)"])
     (simp add: effect_afterHesitationMessage_def clearTimers_def setTimeout_def Let_def)

lemma effects_locked:
  assumes "hasBuzzed cur" and "questions prev = questions cur" and "gameId prev = gameId cur"
    and "currentQuestionIndex prev = currentQuestionIndex cur"
    and "questionStartTime prev = questionStartTime cur" and "loading prev = loading cur"
    and "questionTime prev = questionTime cur"
  shows "\<exists>T H S. effects prev cur = cur \<lparr> hesitationTimer := H, showHesitation := S, timers := T \<rparr>
    \<and> (H = hesitationTimer cur \<or> hesitationTimer cur = None \<and> H \<noteq> None)
    \<and> (S = showHesitation cur \<or> \<not> showHesitation cur \<and> S)"
proof -
  have e1: "effect_updateTimer prev cur cur = cur"
    by (rule effect_updateTimer_skipped[OF assms(7) assms(5)])
  have e2: "effect_startQuestion prev cur cur = cur"
    by (rule effect_startQuestion_skipped[OF assms(2-6)])
  obtain T1 where e3: "effect_reveal prev cur cur = cur \<lparr> timers := T1 \<rparr>"
    using effect_reveal_timers[of prev cur cur] by blast
  from effect_questionTimer_timers[OF assms(1), of prev "cur \<lparr> timers := T1 \<rparr>"]
  obtain T2 where "effect_questionTimer prev cur (cur \<lparr> timers := T1 \<rparr>)
      = cur \<lparr> timers := T1, timers := T2 \<rparr>"
    by blast
  then have e4: "effect_questionTimer prev cur (cur \<lparr> timers := T1 \<rparr>) = cur \<lparr> timers := T2 \<rparr>"
    by simp
  have "\<exists>H. effect_startHesitation prev cur (cur \<lparr> timers := T2 \<rparr>)
        = cur \<lparr> hesitationTimer := H, timers := T2 \<rparr>
      \<and> (H = hesitationTimer cur \<or> hesitationTimer cur = None \<and> H \<noteq> None)"
    using effect_startHesitation_sets[of prev cur "cur \<lparr> timers := T2 \<rparr>"]
  proof
    assume "effect_startHesitation prev cur (cur \<lparr> timers := T2 \<rparr>) = cur \<lparr> timers := T2 \<rparr>"
    then have "effect_startHesitation prev cur (cur \<lparr> timers := T2 \<rparr>)
        = cur \<lparr> hesitationTimer := hesitationTimer cur, timers := T2 \<rparr>"
      by simp
    then show ?thesis by blast
  next
    assume b: "hesitationTimer cur = None
        \<and> effect_startHesitation prev cur (cur \<lparr> timers := T2 \<rparr>)
            = cur \<lparr> timers := T2 \<rparr> \<lparr> hesitationTimer := Some (hesitationTime cur) \<rparr>"
    then have "effect_startHesitation prev cur (cur \<lparr> timers := T2 \<rparr>)
        = cur \<lparr> hesitationTimer := Some (hesitationTime cur), timers := T2 \<rparr>"
      by simp
    with b show ?thesis by blast
  qed
  then obtain H where e5: "effect_startHesitation prev cur (cur \<lparr> timers := T2 \<rparr>)
        = cur \<lparr> hesitationTimer := H, timers := T2 \<rparr>"
    and h: "H = hesitationTimer cur \<or> hesitationTimer cur = None \<and> H \<noteq> None"
    by blast
  from effect_hesitationCountdown_timers[of prev cur "cur \<lparr> hesitationTimer := H, timers := T2 \<rparr>"]
  obtain T3 where "effect_hesitationCountdown prev cur (cur \<lparr> hesitationTimer := H, timers := T2 \<rparr>)
      = cur \<lparr> hesitationTimer := H, timers := T2, timers := T3 \<rparr>"
    by blast
  then have e6: "effect_hesitationCountdown prev cur (cur \<lparr> hesitationTimer := H, timers := T2 \<rparr>)
      = cur \<lparr> hesitationTimer := H, timers := T3 \<rparr>"
    by simp
  have "\<exists>S. effect_hesitationReachedZero prev cur (cur \<lparr> hesitationTimer := H, timers := T3 \<rparr>)
        = cur \<lparr> hesitationTimer := H, showHesitation := S, timers := T3 \<rparr>
      \<and> (S = showHesitation cur \<or> \<not> showHesitation cur \<and> S)"
    using effect_hesitationReachedZero_sets[of prev cur "cur \<lparr> hesitationTimer := H, timers := T3 \<rparr>"]
  proof
    assume "effect_hesitationReachedZero prev cur (cur \<lparr> hesitationTimer := H, timers := T3 \<rparr>)
        = cur \<lparr> hesitationTimer := H, timers := T3 \<rparr>"
    then have "effect_hesitationReachedZero prev cur (cur \<lparr> hesitationTimer := H, timers := T3 \<rparr>)
        = cur \<lparr> hesitationTimer := H, showHesitation := showHesitation cur, timers := T3 \<rparr>"
      by simp
    then show ?thesis by blast
  next
    assume b: "\<not> showHesitation cur
        \<and> effect_hesitationReachedZero prev cur (cur \<lparr> hesitationTimer := H, timers := T3 \<rparr>)
            = cur \<lparr> hesitationTimer := H, timers := T3 \<rparr> \<lparr> showHesitation := True \<rparr>"
    then have "effect_hesitationReachedZero prev cur (cur \<lparr> hesitationTimer := H, timers := T3 \<rparr>)
        = cur \<lparr> hesitationTimer := H, showHesitation := True, timers := T3 \<rparr>"
      by simp
    with b show ?thesis by blast
  qed
  then obtain S where e7: "effect_hesitationReachedZero prev cur
          (cur \<lparr> hesitationTimer := H, timers := T3 \<rparr>)
        = cur \<lparr> hesitationTimer := H, showHesitation := S, timers := T3 \<rparr>"
    and s: "S = showHesitation cur \<or> \<not> showHesitation cur \<and> S"
    by blast
  from effect_afterHesitationMessage_timers[of prev cur
      "cur \<lparr> hesitationTimer := H, showHesitation := S, timers := T3 \<rparr>"]
  obtain T4 where "effect_afterHesitationMessage prev cur
        (cur \<lparr> hesitationTimer := H, showHesitation := S, timers := T3 \<rparr>)
      = cur \<lparr> hesitationTimer := H, showHesitation := S, timers := T3, timers := T4 \<rparr>"
    by blast
  then have e8: "effect_afterHesitationMessage prev cur
        (cur \<lparr> hesitationTimer := H, showHesitation := S, timers := T3 \<rparr>)
      = cur \<lparr> hesitationTimer := H, showHesitation := S, timers := T4 \<rparr>"
    by simp
  have "effects prev cur = cur \<lparr> hesitationTimer := H, showHesitation := S, timers := T4 \<rparr>"
    unfolding effects_def e1 e2 e3 e4 e5 e6 e7 e8 by (rule refl)
  with h s show ?thesis by blast
qed

lemma settle_locked:
  "hasBuzzed cur \<Longrightarrow> questions prev = questions cur \<Longrightarrow> gameId prev = gameId cur \<Longrightarrow>
   currentQuestionIndex prev = currentQuestionIndex cur \<Longrightarrow>
   questionStartTime prev = questionStartTime cur \<Longrightarrow> loading prev = loading cur \<Longrightarrow>
   questionTime prev = questionTime cur \<Longrightarrow>
   (if hesitationTimer cur = None then 1 else 0) + (if showHesitation cur then 0 else 1) < n \<Longrightarrow>
   \<exists>st'. settle (Suc n) prev cur = Some st' \<and> hasBuzzed st' \<and> buzzTimes st' = buzzTimes cur"
proof (induction n arbitrary: prev cur)
  case 0
  then show ?case by simp
next
  case (Suc n)
  show ?case
  proof (cases "deps_changed prev cur")
    case False
    then show ?thesis using Suc.prems(1) by simp
  next
    case True
    from effects_locked[OF Suc.prems(1-7)] obtain T H S
      where e: "effects prev cur = cur \<lparr> hesitationTimer := H, showHesitation := S, timers := T \<rparr>"
        and h: "H = hesitationTimer cur \<or> hesitationTimer cur = None \<and> H \<noteq> None"
        and s: "S = showHesitation cur \<or> \<not> showHesitation cur \<and> S"
      by blast
    let ?nxt = "cur \<lparr> hesitationTimer := H, showHesitation := S, timers := T \<rparr>"
    have u: "settle (Suc (Suc n)) prev cur = settle (Suc n) cur ?nxt" using True by (simp add: e)
    show ?thesis
    proof (cases "deps_changed cur ?nxt")
      case False
      then show ?thesis unfolding u using Suc.prems(1) by simp
    next
      case ch: True
      then have "H \<noteq> hesitationTimer cur \<or> S \<noteq> showHesitation cur"
        by (auto simp: deps_changed_def)
      then have less: "(if hesitationTimer ?nxt = None then 1 else 0)
            + (if showHesitation ?nxt then 0 else 1)
          < (if hesitationTimer cur = None then 1 else 0)
            + (if showHesitation cur then 0 else (1 :: nat))"
        using h s by auto
      then have m: "(if hesitationTimer ?nxt = None then 1 else 0)
            + (if showHesitation ?nxt then 0 else 1) < n"
        using Suc.prems(8) by linarith
      have "\<exists>st'. settle (Suc n) cur ?nxt = Some st' \<and> hasBuzzed st'
          \<and> buzzTimes st' = buzzTimes ?nxt"
        by (rule Suc.IH[OF _ _ _ _ _ _ _ m]) (use Suc.prems(1) in simp_all)
      then show ?thesis unfolding u by simp
    qed
  qed
qed

lemma click_buzzer_settles:
  assumes "buzzer_enabled st" and "questionStartTime st = Some t0"
  shows "\<exists>st'. click_buzzer st = Some st' \<and> hasBuzzed st'
    \<and> buzzTimes st' = buzzTimes st @ [(clock st - t0) / 1000]"
proof -
  have nb: "\<not> hasBuzzed st" using assms(1) by (simp add: buzzer_enabled_def)
  let ?cur = "handleBuzz st st"
  have c: "?cur = (clearTimers is_RevealInterval st)
                 \<lparr> buzzTimes := buzzTimes st @ [(clock st - t0) / 1000],
                   hasBuzzed := True,
                   questionFullyRevealed := True,
                   hesitationComplete := False,
                   showHesitation := False \<rparr>"
    using nb assms(2) by (simp add: handleBuzz_def)
  have m: "(if hesitationTimer ?cur = None then 1 else 0)
        + (if showHesitation ?cur then 0 else 1) < (3 :: nat)"
    by simp
  have "\<exists>st'. settle (Suc 3) st ?cur = Some st' \<and> hasBuzzed st' \<and> buzzTimes st' = buzzTimes ?cur"
    by (rule settle_locked[OF _ _ _ _ _ _ _ m]) (simp_all add: c clearTimers_def)
  then obtain st' where s: "settle (Suc 3) st ?cur = Some st'" and l: "hasBuzzed st'"
    and b: "buzzTimes st' = buzzTimes ?cur"
    by blast
  have "settle (Suc 3 + 46) st ?cur = Some st'" by (rule settle_more_fuel[OF s])
  then have "settle 50 st ?cur = Some st'" by simp
  then have "click_buzzer st = Some st'" using assms(1) by (simp add: click_buzzer_def render_def)
  then show ?thesis using l b by (simp add: c clearTimers_def)
qed

text \<open>
  C6, as the code has it. The claim (of every sequence of buzz attempts against a question
  exactly one wins, and a later attempt changes nothing) does not hold for attempts made
  from one render: the guard reads the variables of the render and the queued updates do
  not test the lock, so a second call from the render of the first also wins. In the
  session component both latencies are recorded; in the legacy engine the second call
  overwrites the timestamp of the first.
\<close>

theorem buzz_same_render_counterexample:
  "fst (buzz_attempts [AfterRender 1200, SameRender 1300] example_live example_live) = [True, True]
   \<and> buzzTimes (snd (buzz_attempts [AfterRender 1200, SameRender 1300] example_live example_live))
       = [6 / 5, 13 / 10]
   \<and> fst (buzzIn_attempts [AfterRender 5000, SameRender 5001]
            (initializeGame example_settings [example_ctx_question])
            (initializeGame example_settings [example_ctx_question])) = [True, True]
   \<and> gs_buzzTime (snd (buzzIn_attempts [AfterRender 5000, SameRender 5001]
            (initializeGame example_settings [example_ctx_question])
            (initializeGame example_settings [example_ctx_question]))) = Some 5001"
  by (simp add: handleBuzz_def buzzIn_def example_live_def unmounted_def clearTimers_def
      initializeGame_def initialGameState_def Let_def)

text \<open>
  C6, amended. Whether a buzz attempt wins is decided by the render it is made from. An
  attempt from a render that shows the question locked, or not yet live, is rejected and
  returns the state unchanged; an attempt from a render that shows the question live and
  unlocked wins: it locks the question and appends its latency (in the legacy engine, it
  sets the buzz timestamp). So, of a sequence of attempts against a live and unlocked
  question, the winners are the first attempt and the attempts made from the same render
  as the first, each adding its latency (in the legacy engine the timestamp is that of the
  last of them); every attempt from the first new render on is rejected. In particular,
  when every attempt after the first comes from a new render, exactly one attempt wins.
  While the render and the state show the question locked or not live, every attempt is
  rejected and nothing but the clock moves. Both handlers, \<open>handleBuzz\<close> and
  \<open>buzzIn\<close>. A click on the enabled buzzer of the session component is followed by a
  render, which settles: after it the question is locked with the latency of the click
  recorded, the buzzer is no longer there, and a further click on it does nothing.
\<close>

theorem buzz_winners_by_render:
  "((hasBuzzed r \<or> questionStartTime r = None) \<longrightarrow> handleBuzz r st = st)
   \<and> (\<not> hasBuzzed r \<and> questionStartTime r = Some t0 \<longrightarrow>
        hasBuzzed (handleBuzz r st)
        \<and> buzzTimes (handleBuzz r st) = buzzTimes st @ [(clock st - t0) / 1000])
   \<and> (\<not> hasBuzzed st \<and> questionStartTime st = Some t0
        \<and> (\<forall>x\<in>set same. \<not> rerendered x) \<and> (rest = [] \<or> rerendered (hd rest)) \<longrightarrow>
        fst (buzz_attempts (a # same @ rest) st st)
          = replicate (Suc (length same)) True @ replicate (length rest) False
        \<and> hasBuzzed (snd (buzz_attempts (a # same @ rest) st st))
        \<and> buzzTimes (snd (buzz_attempts (a # same @ rest) st st))
            = buzzTimes st @ map (\<lambda>x. (time_of x - t0) / 1000) (a # same))
   \<and> ((hasBuzzed r \<or> questionStartTime r = None) \<and> (hasBuzzed st \<or> questionStartTime st = None) \<longrightarrow>
        buzz_attempts as r st
          = (replicate (length as) False, st \<lparr> clock := last (clock st # map time_of as) \<rparr>))
   \<and> ((gs_hasBuzzed gr \<or> \<not> gs_hasStarted gr) \<longrightarrow> buzzIn u gr g = g)
   \<and> (\<not> gs_hasBuzzed gr \<and> gs_hasStarted gr \<longrightarrow>
        gs_hasBuzzed (buzzIn u gr g) \<and> gs_buzzTime (buzzIn u gr g) = Some u)
   \<and> (\<not> gs_hasBuzzed g \<and> gs_hasStarted g
        \<and> (\<forall>x\<in>set same'. \<not> rerendered x) \<and> (rest' = [] \<or> rerendered (hd rest')) \<longrightarrow>
        fst (buzzIn_attempts (a' # same' @ rest') g g)
          = replicate (Suc (length same')) True @ replicate (length rest') False
        \<and> gs_hasBuzzed (snd (buzzIn_attempts (a' # same' @ rest') g g))
        \<and> gs_buzzTime (snd (buzzIn_attempts (a' # same' @ rest') g g))
            = Some (time_of (last (a' # same'))))
   \<and> ((gs_hasBuzzed gr \<or> \<not> gs_hasStarted gr) \<and> (gs_hasBuzzed g \<or> \<not> gs_hasStarted g) \<longrightarrow>
        buzzIn_attempts as' gr g = (replicate (length as') False, g))
   \<and> (buzzer_enabled st \<and> questionStartTime st = Some t0 \<longrightarrow>
        (\<exists>st'. click_buzzer st = Some st'
           \<and> hasBuzzed st' \<and> buzzTimes st' = buzzTimes st @ [(clock st - t0) / 1000]
           \<and> \<not> buzzer_enabled st' \<and> click_buzzer st' = Some st'))
   \<and> (\<not> buzzer_enabled st \<longrightarrow> click_buzzer st = Some st)"
proof (intro conjI impI)
  assume "hasBuzzed r \<or> questionStartTime r = None"
  then show "handleBuzz r st = st" by (rule handleBuzz_rejected)
next
  assume a: "\<not> hasBuzzed r \<and> questionStartTime r = Some t0"
  then show "hasBuzzed (handleBuzz r st)"
    and "buzzTimes (handleBuzz r st) = buzzTimes st @ [(clock st - t0) / 1000]"
    by (simp_all add: handleBuzz_accepted)
next
  assume a: "\<not> hasBuzzed st \<and> questionStartTime st = Some t0
      \<and> (\<forall>x\<in>set same. \<not> rerendered x) \<and> (rest = [] \<or> rerendered (hd rest))"
  let ?st1 = "st \<lparr> clock := time_of a \<rparr>"
  let ?r1 = "if rerendered a then ?st1 else st"
  let ?st2 = "handleBuzz ?r1 ?st1"
  have r1: "\<not> hasBuzzed ?r1" "questionStartTime ?r1 = Some t0" using a by simp_all
  note acc = handleBuzz_accepted[OF r1, of ?st1]
  have u: "buzz_attempts (a # same @ rest) st st
      = (True # fst (buzz_attempts (same @ rest) ?r1 ?st2), snd (buzz_attempts (same @ rest) ?r1 ?st2))"
    using r1 by (simp add: Let_def)
  have sm: "\<forall>x\<in>set same. \<not> rerendered x" using a by simp
  note s = buzz_attempts_same_render[OF r1 sm, of ?st2]
  let ?st3 = "snd (buzz_attempts same ?r1 ?st2)"
  have l3: "hasBuzzed ?st3" using s acc(1) by simp
  have rs: "rest = [] \<or> rerendered (hd rest)" using a by simp
  note t = buzz_attempts_after_lock[OF l3 rs, of ?r1]
  have v: "buzz_attempts (same @ rest) ?r1 ?st2
      = (replicate (length same) True @ replicate (length rest) False,
         ?st3 \<lparr> clock := last (clock ?st3 # map time_of rest) \<rparr>)"
    unfolding buzz_attempts_append_same_render[OF sm] t using s by simp
  show "fst (buzz_attempts (a # same @ rest) st st)
      = replicate (Suc (length same)) True @ replicate (length rest) False"
    unfolding u v by simp
  show "hasBuzzed (snd (buzz_attempts (a # same @ rest) st st))"
    unfolding u v using l3 by simp
  show "buzzTimes (snd (buzz_attempts (a # same @ rest) st st))
      = buzzTimes st @ map (\<lambda>x. (time_of x - t0) / 1000) (a # same)"
    unfolding u v using s acc(2) by simp
next
  assume "(hasBuzzed r \<or> questionStartTime r = None) \<and> (hasBuzzed st \<or> questionStartTime st = None)"
  then show "buzz_attempts as r st
      = (replicate (length as) False, st \<lparr> clock := last (clock st # map time_of as) \<rparr>)"
    by (simp add: buzz_attempts_rejected)
next
  assume "gs_hasBuzzed gr \<or> \<not> gs_hasStarted gr"
  then show "buzzIn u gr g = g" by (rule buzzIn_rejected)
next
  assume a: "\<not> gs_hasBuzzed gr \<and> gs_hasStarted gr"
  then show "gs_hasBuzzed (buzzIn u gr g)" and "gs_buzzTime (buzzIn u gr g) = Some u"
    by (simp_all add: buzzIn_def)
next
  assume a: "\<not> gs_hasBuzzed g \<and> gs_hasStarted g
      \<and> (\<forall>x\<in>set same'. \<not> rerendered x) \<and> (rest' = [] \<or> rerendered (hd rest'))"
  let ?g1 = "if rerendered a' then g else g"
  let ?g2 = "buzzIn (time_of a') g g"
  have g1: "\<not> gs_hasBuzzed g" "gs_hasStarted g" using a by simp_all
  have l2: "gs_hasBuzzed ?g2" "gs_buzzTime ?g2 = Some (time_of a')" using g1 by (simp_all add: buzzIn_def)
  have u: "buzzIn_attempts (a' # same' @ rest') g g
      = (True # fst (buzzIn_attempts (same' @ rest') g ?g2), snd (buzzIn_attempts (same' @ rest') g ?g2))"
    using g1 by (simp add: Let_def)
  have sm: "\<forall>x\<in>set same'. \<not> rerendered x" using a by simp
  note s = buzzIn_attempts_same_render[OF g1 sm, of ?g2]
  let ?g3 = "snd (buzzIn_attempts same' g ?g2)"
  have l3: "gs_hasBuzzed ?g3" using s l2(1) by simp
  have rs: "rest' = [] \<or> rerendered (hd rest')" using a by simp
  note t = buzzIn_attempts_after_lock[OF l3 rs, of g]
  have v: "buzzIn_attempts (same' @ rest') g ?g2
      = (replicate (length same') True @ replicate (length rest') False, ?g3)"
    unfolding buzzIn_attempts_append_same_render[OF sm] t using s by simp
  show "fst (buzzIn_attempts (a' # same' @ rest') g g)
      = replicate (Suc (length same')) True @ replicate (length rest') False"
    unfolding u v by simp
  show "gs_hasBuzzed (snd (buzzIn_attempts (a' # same' @ rest') g g))"
    unfolding u v using l3 by simp
  show "gs_buzzTime (snd (buzzIn_attempts (a' # same' @ rest') g g))
      = Some (time_of (last (a' # same')))"
    unfolding u v using s l2(2) by simp
next
  assume "(gs_hasBuzzed gr \<or> \<not> gs_hasStarted gr) \<and> (gs_hasBuzzed g \<or> \<not> gs_hasStarted g)"
  then show "buzzIn_attempts as' gr g = (replicate (length as') False, g)"
    by (simp add: buzzIn_attempts_rejected)
next
  assume a: "buzzer_enabled st \<and> questionStartTime st = Some t0"
  then have en: "buzzer_enabled st" and t0: "questionStartTime st = Some t0" by simp_all
  from click_buzzer_settles[OF en t0] obtain st' where c: "click_buzzer st = Some st'"
    and l: "hasBuzzed st'" and b: "buzzTimes st' = buzzTimes st @ [(clock st - t0) / 1000]"
    by blast
  have "\<not> buzzer_enabled st'" using l by (simp add: buzzer_enabled_def)
  moreover have "click_buzzer st' = Some st'"
    using l by (simp add: click_buzzer_def buzzer_enabled_def)
  ultimately show "\<exists>st'. click_buzzer st = Some st'
           \<and> hasBuzzed st' \<and> buzzTimes st' = buzzTimes st @ [(clock st - t0) / 1000]
           \<and> \<not> buzzer_enabled st' \<and> click_buzzer st' = Some st'"
    using c l b by blast
next
  assume "\<not> buzzer_enabled st"
  then show "click_buzzer st = Some st" by (simp add: click_buzzer_def)
qed

theorem buzz_winners_by_render_witness:
  "fst (buzz_attempts [AfterRender 1200, AfterRender 1300, SameRender 2500] example_live example_live)
     = [True, False, False]
   \<and> buzzTimes (snd (buzz_attempts [AfterRender 1200, AfterRender 1300, SameRender 2500]
         example_live example_live)) = [6 / 5]
   \<and> fst (buzz_attempts [AfterRender 1200, SameRender 1300, AfterRender 2500, SameRender 2600]
         example_live example_live) = [True, True, False, False]
   \<and> handleBuzz (example_live \<lparr> hasBuzzed := True \<rparr>) example_live = example_live
   \<and> fst (buzzIn_attempts [AfterRender 5000, AfterRender 5001]
         (initializeGame example_settings [example_ctx_question])
         (initializeGame example_settings [example_ctx_question])) = [True, False]
   \<and> gs_buzzTime (snd (buzzIn_attempts [AfterRender 5000, AfterRender 5001]
         (initializeGame example_settings [example_ctx_question])
         (initializeGame example_settings [example_ctx_question]))) = Some 5000
   \<and> map_option hasBuzzed (click_buzzer (example_live \<lparr> clock := 1200 \<rparr>)) = Some True
   \<and> map_option buzzTimes (click_buzzer (example_live \<lparr> clock := 1200 \<rparr>)) = Some [6 / 5]
   \<and> Option.bind (click_buzzer (example_live \<lparr> clock := 1200 \<rparr>)) click_buzzer
       = click_buzzer (example_live \<lparr> clock := 1200 \<rparr>)
   \<and> buzzTimes (handleBuzz example_live (example_live \<lparr> clock := 1200 \<rparr>)) = [6 / 5]
   \<and> fst (buzz_attempts [SameRender 1300, AfterRender 2500]
         (example_live \<lparr> hasBuzzed := True \<rparr>) (example_live \<lparr> hasBuzzed := True \<rparr>))
       = [False, False]
   \<and> gs_buzzTime (buzzIn 5000 (initializeGame example_settings [example_ctx_question])
         (initializeGame example_settings [example_ctx_question])) = Some 5000
   \<and> buzzIn_attempts [AfterRender 5000, SameRender 5001] initialGameState initialGameState
       = ([False, False], initialGameState)
   \<and> click_buzzer (example_live \<lparr> hasBuzzed := True \<rparr>) = Some (example_live \<lparr> hasBuzzed := True \<rparr>)"
proof -
  let ?g = "initializeGame example_settings [example_ctx_question]"
  let ?l = "example_live \<lparr> clock := 1200 \<rparr>"
  have live: "\<not> hasBuzzed example_live" "questionStartTime example_live = Some 0"
    and bt: "buzzTimes example_live = []"
    by (simp_all add: example_live_def unmounted_def)
  have en: "buzzer_enabled ?l" "questionStartTime ?l = Some 0"
    and bl: "buzzTimes ?l = []" "clock ?l = 1200"
    by (simp_all add: example_live_def unmounted_def buzzer_enabled_def)
  have started: "\<not> gs_hasBuzzed ?g" "gs_hasStarted ?g"
    by (simp_all add: initializeGame_def initialGameState_def)
  have h1: "\<not> hasBuzzed example_live \<and> questionStartTime example_live = Some 0
      \<and> (\<forall>x\<in>set ([] :: rat attempt list). \<not> rerendered x)
      \<and> ([AfterRender 1300, SameRender 2500] = []
           \<or> rerendered (hd [AfterRender 1300, SameRender (2500 :: rat)]))"
    using live by simp
  have h2: "\<not> hasBuzzed example_live \<and> questionStartTime example_live = Some 0
      \<and> (\<forall>x\<in>set [SameRender (1300 :: rat)]. \<not> rerendered x)
      \<and> ([AfterRender 2500, SameRender 2600] = []
           \<or> rerendered (hd [AfterRender 2500, SameRender (2600 :: rat)]))"
    using live by simp
  have h3: "hasBuzzed (example_live \<lparr> hasBuzzed := True \<rparr>)
      \<or> questionStartTime (example_live \<lparr> hasBuzzed := True \<rparr>) = None"
    by simp
  have h4: "\<not> gs_hasBuzzed ?g \<and> gs_hasStarted ?g
      \<and> (\<forall>x\<in>set ([] :: int attempt list). \<not> rerendered x)
      \<and> ([AfterRender 5001] = [] \<or> rerendered (hd [AfterRender (5001 :: int)]))"
    using started by simp
  have h5: "buzzer_enabled ?l \<and> questionStartTime ?l = Some 0" using en by simp
  note s1 = buzz_winners_by_render[where st = example_live and ?t0.0 = 0 and same = "[]"
      and rest = "[AfterRender 1300, SameRender 2500]" and a = "AfterRender 1200",
      THEN conjunct2, THEN conjunct2, THEN conjunct1, rule_format, OF h1]
  note s2 = buzz_winners_by_render[where st = example_live and ?t0.0 = 0
      and same = "[SameRender 1300]" and rest = "[AfterRender 2500, SameRender 2600]"
      and a = "AfterRender 1200",
      THEN conjunct2, THEN conjunct2, THEN conjunct1, rule_format, OF h2]
  note s3 = buzz_winners_by_render[where r = "example_live \<lparr> hasBuzzed := True \<rparr>"
      and st = example_live, THEN conjunct1, rule_format, OF h3]
  note s4 = buzz_winners_by_render[where g = ?g and same' = "[]" and rest' = "[AfterRender 5001]"
      and a' = "AfterRender 5000",
      THEN conjunct2, THEN conjunct2, THEN conjunct2, THEN conjunct2, THEN conjunct2,
      THEN conjunct2, THEN conjunct1, rule_format, OF h4]
  note s5 = buzz_winners_by_render[where st = ?l and ?t0.0 = 0,
      THEN conjunct2, THEN conjunct2, THEN conjunct2, THEN conjunct2, THEN conjunct2,
      THEN conjunct2, THEN conjunct2, THEN conjunct2, THEN conjunct1, rule_format, OF h5]
  have A: "fst (buzz_attempts [AfterRender 1200, AfterRender 1300, SameRender 2500]
              example_live example_live) = [True, False, False]
      \<and> buzzTimes (snd (buzz_attempts [AfterRender 1200, AfterRender 1300, SameRender 2500]
            example_live example_live)) = [6 / 5]"
    using s1 bt by (simp del: buzz_attempts.simps add: eval_nat_numeral)
  have B: "fst (buzz_attempts [AfterRender 1200, SameRender 1300, AfterRender 2500, SameRender 2600]
         example_live example_live) = [True, True, False, False]"
    using s2 by (simp del: buzz_attempts.simps add: eval_nat_numeral)
  have C: "fst (buzzIn_attempts [AfterRender 5000, AfterRender 5001] ?g ?g) = [True, False]
      \<and> gs_buzzTime (snd (buzzIn_attempts [AfterRender 5000, AfterRender 5001] ?g ?g)) = Some 5000"
    using s4 by (simp del: buzzIn_attempts.simps add: eval_nat_numeral)
  from s5 obtain st' where c: "click_buzzer ?l = Some st'"
    and D: "hasBuzzed st' \<and> buzzTimes st' = [6 / 5] \<and> click_buzzer st' = Some st'"
    using bl by auto
  let ?k = "example_live \<lparr> hasBuzzed := True \<rparr>"
  have h6: "\<not> hasBuzzed example_live \<and> questionStartTime example_live = Some 0"
    using live by simp
  have h7: "(hasBuzzed ?k \<or> questionStartTime ?k = None)
      \<and> (hasBuzzed ?k \<or> questionStartTime ?k = None)"
    by simp
  have h8: "\<not> gs_hasBuzzed ?g \<and> gs_hasStarted ?g" using started by simp
  have h9: "(gs_hasBuzzed initialGameState \<or> \<not> gs_hasStarted initialGameState)
      \<and> (gs_hasBuzzed initialGameState \<or> \<not> gs_hasStarted initialGameState)"
    by (simp add: initialGameState_def)
  have h10: "\<not> buzzer_enabled ?k" by (simp add: buzzer_enabled_def)
  note s6 = buzz_winners_by_render[where r = example_live and st = ?l and ?t0.0 = 0,
      THEN conjunct2, THEN conjunct1, rule_format, OF h6]
  note s7 = buzz_winners_by_render[where r = ?k and st = ?k
      and as = "[SameRender 1300, AfterRender 2500]",
      THEN conjunct2, THEN conjunct2, THEN conjunct2, THEN conjunct1, rule_format, OF h7]
  note s8 = buzz_winners_by_render[where gr = ?g and g = ?g and u = 5000,
      THEN conjunct2, THEN conjunct2, THEN conjunct2, THEN conjunct2, THEN conjunct2,
      THEN conjunct1, rule_format, OF h8]
  note s9 = buzz_winners_by_render[where gr = initialGameState and g = initialGameState
      and as' = "[AfterRender 5000, SameRender 5001]",
      THEN conjunct2, THEN conjunct2, THEN conjunct2, THEN conjunct2, THEN conjunct2,
      THEN conjunct2, THEN conjunct2, THEN conjunct1, rule_format, OF h9]
  note s10 = buzz_winners_by_render[where st = ?k,
      THEN conjunct2, THEN conjunct2, THEN conjunct2, THEN conjunct2, THEN conjunct2,
      THEN conjunct2, THEN conjunct2, THEN conjunct2, THEN conjunct2, rule_format, OF h10]
  have E: "buzzTimes (handleBuzz example_live ?l) = [6 / 5]" using s6 bl by simp
  have F: "fst (buzz_attempts [SameRender 1300, AfterRender 2500] ?k ?k) = [False, False]"
    using s7 by (simp del: buzz_attempts.simps add: eval_nat_numeral)
  have G: "gs_buzzTime (buzzIn 5000 ?g ?g) = Some 5000" using s8 by simp
  have H: "buzzIn_attempts [AfterRender 5000, SameRender 5001] initialGameState initialGameState
      = ([False, False], initialGameState)"
    using s9 by (simp del: buzzIn_attempts.simps add: eval_nat_numeral)
  from A B C D s3 E F G H s10 show ?thesis
    by (simp add: c del: buzz_attempts.simps buzzIn_attempts.simps)
qed

section \<open>Properties of the store operations\<close>

lemma fetch_loop_eq: "fetch_loop f ids qs = qs @ found_questions f ids"
  by (induction ids arbitrary: qs) (auto simp: found_questions_def split: fetched.splits)

lemma find_found:
  "find (\<lambda>q. q_id q = i) (found_questions f ids)
     = (if i \<in> set ids
        then (case f i of Found d \<Rightarrow> Some (d \<lparr> q_id := i \<rparr>) | Missing \<Rightarrow> None | ReadError \<Rightarrow> None)
        else None)"
proof (induction ids)
  case Nil
  then show ?case by (simp add: found_questions_def)
next
  case (Cons j ids)
  have s: "found_questions f (j # ids)
      = (case f j of Found d \<Rightarrow> [d \<lparr> q_id := j \<rparr>] | Missing \<Rightarrow> [] | ReadError \<Rightarrow> [])
        @ found_questions f ids"
    by (simp add: found_questions_def)
  show ?case using Cons.IH
    by (cases "f j") (auto simp: s split: fetched.splits)
qed

lemma map_filter_found:
  "List.map_filter
     (\<lambda>i. case f i of Found d \<Rightarrow> Some (d \<lparr> q_id := i \<rparr>) | Missing \<Rightarrow> None | ReadError \<Rightarrow> None) ids
     = found_questions f ids"
  by (induction ids)
     (auto simp: found_questions_def List.map_filter_simps split: fetched.splits)

lemma map_filter_cong_set:
  "(\<And>x. x \<in> set xs \<Longrightarrow> f x = g x) \<Longrightarrow> List.map_filter f xs = List.map_filter g xs"
  by (induction xs) (auto simp: List.map_filter_simps split: option.splits)

lemma getQuestionsByIds_eq: "getQuestionsByIds f ids = found_questions f ids"
proof (cases "ids = []")
  case True
  then show ?thesis by (simp add: getQuestionsByIds_def found_questions_def)
next
  case False
  have "List.map_filter (\<lambda>i. find (\<lambda>q. q_id q = i) (found_questions f ids)) ids
      = List.map_filter
          (\<lambda>i. case f i of Found d \<Rightarrow> Some (d \<lparr> q_id := i \<rparr>) | Missing \<Rightarrow> None | ReadError \<Rightarrow> None) ids"
    by (rule map_filter_cong_set) (simp add: find_found)
  then show ?thesis using False
    by (simp add: getQuestionsByIds_def fetch_loop_eq[of f ids "[]", simplified] map_filter_found)
qed

lemma found_questions_empty:
  "(found_questions f ids = []) = (\<forall>i\<in>set ids. \<forall>data. f i \<noteq> Found data)"
  by (induction ids) (auto simp: found_questions_def split: fetched.splits)

text \<open>
  C3, as the code has it. The claim (a missing id makes the fetch fail with NotFound and
  aborts the session) does not hold: with \<open>q1\<close> in the bank and \<open>q2\<close> deleted, the
  fetch of \<open>[q1, q2]\<close> returns \<open>[q1]\<close> and the match session is loaded with that one
  question.
\<close>

theorem getQuestionsByIds_missing_counterexample:
  "example_bank ''q2'' = Missing
   \<and> getQuestionsByIds example_bank [''q1'', ''q2''] = [example_question]
   \<and> loadMatch (Some ''g1'') (Some ''p1'') example_bank example_db
       = Loaded example_game [example_question]"
  by (simp add: example_bank_def getQuestionsByIds_def List.map_filter_simps
      example_question_def loadMatch_def getGame_def example_db_def example_game_def nonempty_def)

text \<open>
  C3, amended. Fetching questions by ids returns the questions that exist, in the order
  of the requested ids; an id that is missing, or whose read throws, is passed over
  without an error. Loading a match session (for a member of an active match with a
  non-empty question list) fails only when none of the requested questions is found;
  otherwise the session starts with the questions that were found.
\<close>

theorem getQuestionsByIds_returns_found:
  "getQuestionsByIds getDoc questionIds = found_questions getDoc questionIds
   \<and> (found_questions getDoc questionIds = [])
       = (\<forall>i\<in>set questionIds. \<forall>data. getDoc i \<noteq> Found data)
   \<and> (gid \<noteq> [] \<and> getGame gid d = Some matchData \<and> g_status matchData = active
        \<and> (case g_playerIds matchData of None \<Rightarrow> True | Some ps \<Rightarrow> uid \<in> set ps)
        \<and> g_questionIds matchData \<noteq> [] \<longrightarrow>
       loadMatch (Some gid) (Some uid) getDoc d
         = (if found_questions getDoc (g_questionIds matchData) = []
            then LoadFailed NoQuestionsFound
            else Loaded matchData (found_questions getDoc (g_questionIds matchData))))"
  by (auto simp: getQuestionsByIds_eq found_questions_empty loadMatch_def Let_def nonempty_def
      split: option.splits)

theorem getQuestionsByIds_returns_found_witness:
  "getGame ''g1'' example_db = Some example_game \<and> g_status example_game = active
   \<and> g_playerIds example_game = Some [''p1'', ''p2''] \<and> g_questionIds example_game \<noteq> []
   \<and> found_questions example_bank [''q2'', ''q1'', ''q1''] = [example_question, example_question]
   \<and> getQuestionsByIds example_bank [''q2'', ''q1'', ''q1''] = [example_question, example_question]
   \<and> getQuestionsByIds example_bank [''q2'', ''q3''] = []
   \<and> loadMatch (Some ''g1'') (Some ''p2'') example_bank example_db
       = Loaded example_game (found_questions example_bank [''q1'', ''q2''])"
proof -
  have h: "''g1'' \<noteq> [] \<and> getGame ''g1'' example_db = Some example_game
      \<and> g_status example_game = active
      \<and> (case g_playerIds example_game of None \<Rightarrow> True | Some ps \<Rightarrow> ''p2'' \<in> set ps)
      \<and> g_questionIds example_game \<noteq> []"
    by (simp add: getGame_def example_db_def example_game_def)
  have f: "found_questions example_bank [''q2'', ''q1'', ''q1''] = [example_question, example_question]"
    "found_questions example_bank [''q2'', ''q3''] = []"
    "found_questions example_bank [''q1'', ''q2''] = [example_question]"
    by (simp_all add: found_questions_def example_bank_def example_question_def)
  have q: "g_questionIds example_game = [''q1'', ''q2'']"
    "g_playerIds example_game = Some [''p1'', ''p2'']"
    by (simp_all add: example_game_def)
  show ?thesis
    using getQuestionsByIds_returns_found[of example_bank "[''q2'', ''q1'', ''q1'']" "''g1''"
            example_db example_game "''p2''"]
          getQuestionsByIds_returns_found[of example_bank "[''q2'', ''q3'']" "''g1''"
            example_db example_game "''p2''"] h
    by (simp add: f q)
qed

text \<open>
  C2, as the code has it. The claim (at most one result entry per match and participant,
  a duplicate write being detected and skipped) does not hold: writing the result of the
  same participant and match twice stores two entries.
\<close>

theorem createMatchHistory_duplicate_counterexample:
  "entries_for ''g1'' ''p1''
     (snd (createMatchHistory (example_history ''p1'')
        (snd (createMatchHistory (example_history ''p1'') example_db)))) = 2"
  by (simp add: entries_for_def createMatchHistory_def example_history_def matchHistory_of_def
      example_db_def)

text \<open>
  C2, amended. Every write of a result entry appends one new document under a generated
  id, without reading the collection first: the number of entries for a match and a
  participant grows by one with each write for that pair (and not at all with a write
  for another pair), and the entries stored before are kept as they are. The write that
  opens the completion check at the end of a session is such a write, whatever the store
  already holds.
\<close>

theorem createMatchHistory_appends:
  "fst (createMatchHistory m d) = length (matchHistory d)
   \<and> take (length (matchHistory d)) (matchHistory (snd (createMatchHistory m d))) = matchHistory d
   \<and> length (matchHistory (snd (createMatchHistory m d))) = length (matchHistory d) + 1
   \<and> entries_for gid playerId (snd (createMatchHistory m d))
       = entries_for gid playerId d
         + (if gid = mh_gameId m \<and> playerId = mh_playerId m then 1 else 0)
   \<and> entries_for (mh_gameId (k_matchHistory c)) (mh_playerId (k_matchHistory c))
         (snd (step_caller (c \<lparr> k_pc := AtCreateMatchHistory \<rparr>) d))
       = entries_for (mh_gameId (k_matchHistory c)) (mh_playerId (k_matchHistory c)) d + 1"
  by (simp add: createMatchHistory_def entries_for_def step_caller_def)

section \<open>Properties of the timed session component\<close>

lemma run_until_unfold:
  "run_until n t st = (if n = 0 then None else
     (case earliest (timers st) of
        None \<Rightarrow> Some (st \<lparr> clock := max (clock st) t \<rparr>)
      | Some i \<Rightarrow>
          if due (timers st ! i) \<le> t
          then (case fire i st of None \<Rightarrow> None | Some st' \<Rightarrow> run_until (n - 1) t st')
          else Some (st \<lparr> clock := max (clock st) t \<rparr>)))"
  by (cases n) (simp_all cong: option.case_cong if_cong)

lemma settle_unfold:
  "settle n prev cur = (if n = 0 then None else
     (if deps_changed prev cur then settle (n - 1) cur (effects prev cur) else Some cur))"
  by (cases n) auto

lemmas session_defs = mount_def render_def unmounted_def effects_def deps_changed_def
  effect_updateTimer_def effect_startQuestion_def effect_reveal_def effect_questionTimer_def
  effect_startHesitation_def effect_hesitationCountdown_def effect_hesitationReachedZero_def
  effect_afterHesitationMessage_def startQuestion_def truthy_string_def clearTimers_def
  setInterval_def setTimeout_def msPerWord_of_def fire_def revealTick_def handleTimeExpired_def
  capture_def timeExpiredAdvance_def endGame_def Let_def

lemmas click_defs = click_buzzer_def buzzer_enabled_def handleBuzz_def click_answer_def
  answer_enabled_def handleAnswer_def hesitationTick_def hesitationMessageDone_def
  hesitationAdvance_def answerAdvance_def increment_def

lemma example_question_fields:
  "totalWords_of example_question = 9" "correctAnswer example_question = ''Mars''"
  "distractors example_question = [''Venus'', ''Jupiter'']" "subjectArea example_question = ''SC''"
  "q_id example_question = ''q1''"
  by (simp_all add: example_question_def totalWords_of_def)

lemma ten_word_question_fields:
  "totalWords_of ten_word_question = 10" "correctAnswer ten_word_question = ''Mars''"
  "distractors ten_word_question = [''Venus'', ''Jupiter'', ''Saturn'']"
  by (simp_all add: ten_word_question_def totalWords_of_def)

lemmas example_session_defs = example_timeout_session_def example_hesitation_session_def
  example_late_answer_session_def example_correct_session_def example_question_fields

lemmas persisted_defs = persisted_def persist_calls_def matchHistory_of_def
  createMatchHistory_def empty_db_def hesitation_counts_def nonempty_def

text \<open>The states in which the example sessions end.\<close>

lemma timeout_session_final:
  "example_timeout_session
     = Some ((unmounted 10 5 150 0)
         \<lparr> questions := [example_question], gameId := Some ''g1'', loading := False,
           timer := 0, revealedWordsCount := 9, isQuestionLive := True,
           questionStartTime := Some 0, questionFullyRevealed := True, clock := 20000,
           outcomes := [(0, Timeout)], endGameCalls := [(0, example_closure)] \<rparr>)"
  by (simp add: example_session_defs session_defs settle_unfold run_until_unfold
      example_closure_def)

lemma hesitation_session_final:
  "example_hesitation_session
     = Some ((unmounted 10 5 150 0)
         \<lparr> questions := [example_question], gameId := Some ''g1'', loading := False,
           revealedWordsCount := 2, isQuestionLive := True,
           questionStartTime := Some 0, questionFullyRevealed := True, buzzTimes := [1],
           totalBySubject := [(''SC'', 1)],
           hasBuzzed := True, hesitationTimer := Some 0, hesitationComplete := True,
           clock := 20000,
           outcomes := [(0, HesitationExpired)],
           endGameCalls := [(0, example_closure \<lparr> c_buzzTimes := [1] \<rparr>)] \<rparr>)"
  by (simp add: example_session_defs session_defs click_defs settle_unfold run_until_unfold
      example_closure_def)

lemma late_answer_session_final:
  "example_late_answer_session
     = Some ((unmounted 10 5 150 0)
         \<lparr> questions := [example_question], gameId := Some ''g1'', loading := False,
           playerScore := 1, revealedWordsCount := 2, isQuestionLive := True,
           questionStartTime := Some 0, questionFullyRevealed := True, buzzTimes := [1],
           correctBySubject := [(''SC'', 1)], totalBySubject := [(''SC'', 2)],
           hasBuzzed := True, hesitationTimer := Some 0, hesitationComplete := True,
           clock := 20000,
           outcomes := [(0, Correct), (0, HesitationExpired)],
           endGameCalls := [(1, example_closure \<lparr> c_buzzTimes := [1] \<rparr>),
                            (0, example_closure \<lparr> c_buzzTimes := [1] \<rparr>)] \<rparr>)"
  by (simp add: example_session_defs session_defs click_defs settle_unfold run_until_unfold
      example_closure_def)

lemma correct_session_final:
  "example_correct_session
     = Some ((unmounted 10 5 150 0)
         \<lparr> questions := [example_question], gameId := Some ''g1'', loading := False,
           playerScore := 1, revealedWordsCount := 2, isQuestionLive := True,
           selectedAnswer := Some ''Mars'', showResult := True,
           questionStartTime := Some 0, questionFullyRevealed := True, buzzTimes := [1],
           correctBySubject := [(''SC'', 1)], totalBySubject := [(''SC'', 1)],
           hasBuzzed := True, hesitationTimer := Some 4,
           clock := 20000,
           outcomes := [(0, Correct)],
           endGameCalls := [(1, example_closure \<lparr> c_buzzTimes := [1] \<rparr>)] \<rparr>)"
  by (simp add: example_session_defs session_defs click_defs settle_unfold run_until_unfold
      example_closure_def)

text \<open>
  In the state of a session whose only question was answered right, the score and the
  per-subject counts agree; the result that \<open>endGame\<close> persists has the score passed to
  it and the per-subject records of the render in which the answer was clicked, which do
  not yet count that answer.
\<close>

lemma last_answer_not_in_persisted_counts:
  "map_option playerScore example_correct_session = Some 1
   \<and> map_option correct_total example_correct_session = Some 1
   \<and> map_option attempted_total example_correct_session = Some 1
   \<and> map_option (map mh_score)
        (map_option (persisted ''g1'' ''p1'' (Some ''t1'')) example_correct_session) = Some [1]
   \<and> map_option (map mh_correctBySubject)
        (map_option (persisted ''g1'' ''p1'' (Some ''t1'')) example_correct_session) = Some [[]]
   \<and> map_option (map mh_totalBySubject)
        (map_option (persisted ''g1'' ''p1'' (Some ''t1'')) example_correct_session)
       = Some [Some []]"
  by (simp add: correct_session_final unmounted_def correct_total_def attempted_total_def
      sum_counts_def persisted_defs example_closure_def toFixed2_def)

text \<open>
  C5, as the code has it. With \<open>wpm = 150\<close> and \<open>questionTime = 10\<close>, a question of
  ten words and no buzz: 10 seconds after the question started, the question has not
  resolved; all ten words are visible and the question timer, which started only when the
  last word appeared, shows 4.
\<close>

theorem no_timeout_at_ten_seconds_counterexample:
  "map_option outcomes
     (Option.bind (mount 10 5 150 0 [ten_word_question] ''g1'') (run_until 100 10000)) = Some []
   \<and> map_option showResult
     (Option.bind (mount 10 5 150 0 [ten_word_question] ''g1'') (run_until 100 10000)) = Some False
   \<and> map_option revealedWordsCount
     (Option.bind (mount 10 5 150 0 [ten_word_question] ''g1'') (run_until 100 10000)) = Some 10
   \<and> map_option timer
     (Option.bind (mount 10 5 150 0 [ten_word_question] ''g1'') (run_until 100 10000)) = Some 4"
proof -
  have e: "Option.bind (mount 10 5 150 0 [ten_word_question] ''g1'') (run_until 100 10000)
      = Some ((unmounted 10 5 150 0)
          \<lparr> questions := [ten_word_question], gameId := Some ''g1'', loading := False,
            timer := 4, revealedWordsCount := 10, isQuestionLive := True,
            questionStartTime := Some 0, questionFullyRevealed := True, clock := 10000,
            timers := [\<lparr> due = 11000, period = Some 1000, cb = QuestionTimerInterval \<rparr>] \<rparr>)"
    by (simp add: session_defs settle_unfold run_until_unfold ten_word_question_fields)
  show ?thesis by (simp add: e unmounted_def)
qed

text \<open>
  C5, amended. With \<open>wpm = 150\<close> and \<open>questionTime = 10\<close>, for a question of ten words
  (with its answer data) that starts at \<open>t0\<close> and no buzz: word N becomes visible
  \<open>N * 400\<close> milliseconds after the question starts (one millisecond earlier, N - 1 words
  are visible), for N from 1 to 10; the question timer runs from the moment the last word
  is visible, so the question resolves with outcome \<open>timeout\<close> 14 seconds after it
  started (4 seconds of reveal and 10 seconds of timer), and not before.
\<close>

theorem ten_words_timeline:
  assumes "totalWords_of q = 10" and "correctAnswer q \<noteq> []" and "distractors q \<noteq> []"
    and "g \<noteq> []"
  shows "map_option (map revealedWordsCount)
           (Option.bind (mount 10 5 150 t0 [q] g)
              (timeline 100 [t0 + 399, t0 + 400, t0 + 799, t0 + 800, t0 + 1199, t0 + 1200,
                             t0 + 1599, t0 + 1600, t0 + 1999, t0 + 2000, t0 + 2399, t0 + 2400,
                             t0 + 2799, t0 + 2800, t0 + 3199, t0 + 3200, t0 + 3599, t0 + 3600,
                             t0 + 3999, t0 + 4000]))
         = Some [0, 1, 1, 2, 2, 3, 3, 4, 4, 5, 5, 6, 6, 7, 7, 8, 8, 9, 9, 10]
     \<and> map_option (map outcomes)
           (Option.bind (mount 10 5 150 t0 [q] g) (timeline 100 [t0 + 10000, t0 + 13999, t0 + 14000]))
         = Some [[], [], [(0, Timeout)]]
     \<and> map_option questionStartTime (mount 10 5 150 t0 [q] g) = Some (Some t0)"
proof (intro conjI)
  show "map_option (map revealedWordsCount)
           (Option.bind (mount 10 5 150 t0 [q] g)
              (timeline 100 [t0 + 399, t0 + 400, t0 + 799, t0 + 800, t0 + 1199, t0 + 1200,
                             t0 + 1599, t0 + 1600, t0 + 1999, t0 + 2000, t0 + 2399, t0 + 2400,
                             t0 + 2799, t0 + 2800, t0 + 3199, t0 + 3200, t0 + 3599, t0 + 3600,
                             t0 + 3999, t0 + 4000]))
         = Some [0, 1, 1, 2, 2, 3, 3, 4, 4, 5, 5, 6, 6, 7, 7, 8, 8, 9, 9, 10]"
    using assms by (simp add: session_defs settle_unfold run_until_unfold)
  show "map_option (map outcomes)
           (Option.bind (mount 10 5 150 t0 [q] g) (timeline 100 [t0 + 10000, t0 + 13999, t0 + 14000]))
         = Some [[], [], [(0, Timeout)]]"
    using assms by (simp add: session_defs settle_unfold run_until_unfold)
  show "map_option questionStartTime (mount 10 5 150 t0 [q] g) = Some (Some t0)"
    using assms by (simp add: session_defs settle_unfold)
qed

theorem ten_words_timeline_witness:
  "totalWords_of ten_word_question = 10
   \<and> map_option (map outcomes)
       (Option.bind (mount 10 5 150 0 [ten_word_question] ''g1'')
          (timeline 100 [0 + 10000, 0 + 13999, 0 + 14000]))
     = Some [[], [], [(0, Timeout)]]"
proof -
  have h: "totalWords_of ten_word_question = 10" "correctAnswer ten_word_question \<noteq> []"
    "distractors ten_word_question \<noteq> []" "''g1'' \<noteq> []"
    by (simp_all add: ten_word_question_fields)
  show ?thesis using ten_words_timeline[OF h, of 0] h(1) by simp
qed

text \<open>
  C7, evaluated at a failing input: a session of one question in which nobody buzzes.
  The question times out and the session ends with score 0; no per-subject total was
  incremented, so the totals attempted sum to 0 while the session has 1 question, in the
  state of the session and in the result it persists alike. In the sibling session, where
  the question ends by hesitation, the total of the subject is incremented.
\<close>

theorem timeout_not_in_totals:
  "map_option outcomes example_timeout_session = Some [(0, Timeout)]
   \<and> map_option question_count example_timeout_session = Some 1
   \<and> map_option attempted_total example_timeout_session = Some 0
   \<and> map_option (map mh_total) (map_option (persisted ''g1'' ''p1'' (Some ''t1'')) example_timeout_session)
       = Some [1]
   \<and> map_option (map mh_totalBySubject)
       (map_option (persisted ''g1'' ''p1'' (Some ''t1'')) example_timeout_session) = Some [Some []]
   \<and> map_option outcomes example_hesitation_session = Some [(0, HesitationExpired)]
   \<and> map_option attempted_total example_hesitation_session = Some 1"
  by (simp add: timeout_session_final hesitation_session_final unmounted_def question_count_def
      attempted_total_def sum_counts_def persisted_defs example_closure_def toFixed2_def)

text \<open>
  C4, evaluated at a failing input: a session of one question, a buzz, no answer during
  the hesitation countdown, and a click on the right answer while the hesitation message is
  shown. The answer is accepted (the question resolves as \<open>correct\<close>); the timeout that
  ends the hesitation message is still armed and resolves the same question a second time
  as \<open>hesitation-expired\<close>. The subject's total is 2 for one question, and \<open>endGame\<close>
  runs twice, with scores 1 and 0.
\<close>

theorem late_answer_resolves_twice:
  "map_option outcomes example_late_answer_session = Some [(0, Correct), (0, HesitationExpired)]
   \<and> map_option question_count example_late_answer_session = Some 1
   \<and> map_option totalBySubject example_late_answer_session = Some [(''SC'', 2)]
   \<and> map_option (map fst) (map_option endGameCalls example_late_answer_session) = Some [1, 0]"
  by (simp add: late_answer_session_final unmounted_def question_count_def)

text \<open>
  C9, as the code has it. A session whose only question ended by hesitation and a session
  whose only question timed out both persist \<open>hesitationCount = 0\<close>: the persisted result
  does not record the two outcomes as different entries.
\<close>

theorem hesitation_not_recorded_counterexample:
  "map_option outcomes example_hesitation_session = Some [(0, HesitationExpired)]
   \<and> map_option hesitation_counts example_hesitation_session = Some [0]
   \<and> map_option outcomes example_timeout_session = Some [(0, Timeout)]
   \<and> map_option hesitation_counts example_timeout_session = Some [0]"
  by (simp add: hesitation_session_final timeout_session_final unmounted_def persisted_defs
      example_closure_def)

lemma persist_calls_hesitationCount:
  "map mh_hesitationCount
     (matchHistory (foldl (\<lambda>d' call. snd (createMatchHistory (f call) d')) d calls))
     = map mh_hesitationCount (matchHistory d) @ map (\<lambda>call. mh_hesitationCount (f call)) calls"
  by (induction calls arbitrary: d) (simp_all add: createMatchHistory_def)

text \<open>
  C9, amended. A question that expires with no buzz resolves through
  \<open>handleTimeExpired\<close> (timeout), which the question timer calls only while nobody has
  buzzed; a buzz followed by an expired hesitation countdown resolves through the callback
  of the hesitation message, which is armed only after a buzz. Both are misses: neither
  changes the score or the per-subject correct counts. The persisted result has no entry
  for either outcome: its \<open>hesitationCount\<close> is 0 in every result a session writes, and
  it has no field for timeouts.
\<close>

theorem timeout_and_hesitation_are_misses:
  "outcomes (handleTimeExpired c st) = outcomes st @ [(c_currentQuestionIndex c, Timeout)]
   \<and> playerScore (handleTimeExpired c st) = playerScore st
   \<and> correctBySubject (handleTimeExpired c st) = correctBySubject st
   \<and> outcomes (hesitationMessageDone c st) = outcomes st @ [(c_currentQuestionIndex c, HesitationExpired)]
   \<and> playerScore (hesitationMessageDone c st) = playerScore st
   \<and> correctBySubject (hesitationMessageDone c st) = correctBySubject st
   \<and> outcomes (effect_questionTimer prev cur acc)
       = outcomes acc @
         (if (timer prev, questionFullyRevealed prev, hasBuzzed prev)
             \<noteq> (timer cur, questionFullyRevealed cur, hasBuzzed cur)
             \<and> timer cur = 0 \<and> questionFullyRevealed cur \<and> \<not> hasBuzzed cur
          then [(currentQuestionIndex cur, Timeout)] else [])
   \<and> length (filter (\<lambda>p. is_HesitationMessageTimeout (cb p)) (timers (effect_afterHesitationMessage prev cur acc)))
       = (if (showHesitation prev, hasBuzzed prev) = (showHesitation cur, hasBuzzed cur)
          then length (filter (\<lambda>p. is_HesitationMessageTimeout (cb p)) (timers acc))
          else if showHesitation cur \<and> hasBuzzed cur \<and> \<not> hesitationComplete cur \<and> \<not> showResult cur
          then 1 else 0)
   \<and> mh_hesitationCount (matchHistory_of gid playerId teamId isMatch qs c finalScore) = 0
   \<and> map mh_hesitationCount (persisted gid playerId teamId st)
       = replicate (length (endGameCalls st)) 0"
proof (intro conjI)
  show "map mh_hesitationCount (persisted gid playerId teamId st)
      = replicate (length (endGameCalls st)) 0"
    unfolding persisted_def persist_calls_def
    by (simp add: persist_calls_hesitationCount empty_db_def matchHistory_of_def Let_def
        map_replicate_const)
  show "mh_hesitationCount (matchHistory_of gid playerId teamId isMatch qs c finalScore) = 0"
    by (simp add: matchHistory_of_def Let_def)
  show "outcomes (handleTimeExpired c st) = outcomes st @ [(c_currentQuestionIndex c, Timeout)]"
    "playerScore (handleTimeExpired c st) = playerScore st"
    "correctBySubject (handleTimeExpired c st) = correctBySubject st"
    by (simp_all add: handleTimeExpired_def setTimeout_def)
  show "outcomes (hesitationMessageDone c st)
      = outcomes st @ [(c_currentQuestionIndex c, HesitationExpired)]"
    "playerScore (hesitationMessageDone c st) = playerScore st"
    "correctBySubject (hesitationMessageDone c st) = correctBySubject st"
    by (simp_all add: hesitationMessageDone_def setTimeout_def)
  show "outcomes (effect_questionTimer prev cur acc)
       = outcomes acc @
         (if (timer prev, questionFullyRevealed prev, hasBuzzed prev)
             \<noteq> (timer cur, questionFullyRevealed cur, hasBuzzed cur)
             \<and> timer cur = 0 \<and> questionFullyRevealed cur \<and> \<not> hasBuzzed cur
          then [(currentQuestionIndex cur, Timeout)] else [])"
    by (simp add: effect_questionTimer_def handleTimeExpired_def setTimeout_def
        setInterval_def clearTimers_def capture_def Let_def)
  show "length (filter (\<lambda>p. is_HesitationMessageTimeout (cb p))
                  (timers (effect_afterHesitationMessage prev cur acc)))
       = (if (showHesitation prev, hasBuzzed prev) = (showHesitation cur, hasBuzzed cur)
          then length (filter (\<lambda>p. is_HesitationMessageTimeout (cb p)) (timers acc))
          else if showHesitation cur \<and> hasBuzzed cur \<and> \<not> hesitationComplete cur \<and> \<not> showResult cur
          then 1 else 0)"
    by (simp add: effect_afterHesitationMessage_def setTimeout_def clearTimers_def Let_def)
qed

theorem timeout_and_hesitation_are_misses_witness:
  "outcomes (handleTimeExpired example_closure example_live) = [(0, Timeout)]
   \<and> playerScore (hesitationMessageDone example_closure example_live) = 0
   \<and> outcomes (effect_questionTimer example_live
         (example_live \<lparr> timer := 0, questionFullyRevealed := True \<rparr>)
         (example_live \<lparr> timer := 0, questionFullyRevealed := True \<rparr>)) = [(0, Timeout)]
   \<and> length (filter (\<lambda>p. is_HesitationMessageTimeout (cb p))
         (timers (effect_afterHesitationMessage example_live
            (example_live \<lparr> hasBuzzed := True, showHesitation := True \<rparr>)
            (example_live \<lparr> hasBuzzed := True, showHesitation := True \<rparr>)))) = 1
   \<and> mh_hesitationCount (example_history ''p1'') = 0"
  using timeout_and_hesitation_are_misses[where c = example_closure and st = example_live
      and prev = example_live
      and cur = "example_live \<lparr> timer := 0, questionFullyRevealed := True \<rparr>"
      and acc = "example_live \<lparr> timer := 0, questionFullyRevealed := True \<rparr>"
      and gid = "''g1''" and playerId = "''p1''" and teamId = "Some ''t1''" and isMatch = True
      and qs = "[example_question]" and finalScore = 0]
    timeout_and_hesitation_are_misses[where c = example_closure and st = example_live
      and prev = example_live
      and cur = "example_live \<lparr> hasBuzzed := True, showHesitation := True \<rparr>"
      and acc = "example_live \<lparr> hasBuzzed := True, showHesitation := True \<rparr>"
      and gid = "''g1''" and playerId = "''p1''" and teamId = "Some ''t1''" and isMatch = True
      and qs = "[example_question]" and finalScore = 0]
  by (simp add: example_live_def unmounted_def example_closure_def example_history_def)

section \<open>Properties of the match status\<close>

lemma updateGame_games:
  "updateGame gid' u d = Some d' \<Longrightarrow> games d gid = Some g \<Longrightarrow>
   \<exists>g'. games d' gid = Some g'
     \<and> g_status g' = (if gid = gid' then (case u_status u of None \<Rightarrow> g_status g | Some s \<Rightarrow> s)
                       else g_status g)"
  by (auto simp: updateGame_def Let_def split: option.splits if_splits)

lemma createNotification_games: "games (createNotification n d) = games d"
  by (simp add: createNotification_def)

lemma fanOut_games: "games (fanOut c gameData gid d) = games d"
proof -
  have f: "\<And>ps d0. games (foldl (\<lambda>d' pId. createNotification (match_end c gameData gid pId) d') d0 ps)
      = games d0"
    subgoal for ps d0
      by (induction ps arbitrary: d0) (simp_all add: createNotification_games)
    done
  show ?thesis
    by (simp add: fanOut_def Let_def f createNotification_games split: option.splits)
qed

lemma fallbackFanOut_games: "games (fallbackFanOut c gameData gid d) = games d"
  by (simp add: fallbackFanOut_def Let_def createNotification_games split: option.splits)

lemma step_caller_db:
  "games (snd (step_caller c d)) = games d
   \<or> (\<exists>gid0. updateGame gid0 completing d = Some (snd (step_caller c d)))"
proof (cases "k_pc c")
  case AtCreateMatchHistory
  then show ?thesis by (simp add: step_caller_def createMatchHistory_def)
next
  case AtGetGame
  then show ?thesis by (simp add: step_caller_def Let_def split: option.splits)
next
  case AtGetHistories
  then show ?thesis by (simp add: step_caller_def Let_def split: option.splits)
next
  case AtRetry
  then show ?thesis by (simp add: step_caller_def Let_def split: option.splits)
next
  case AtDecide
  then show ?thesis
    by (auto simp: step_caller_def Let_def split: option.splits if_splits)
next
  case AtFanOut
  then show ?thesis by (simp add: step_caller_def fanOut_games split: option.splits)
next
  case AtFallback
  then show ?thesis
    by (auto simp: step_caller_def Let_def split: option.splits if_splits)
next
  case AtFallbackFanOut
  then show ?thesis by (simp add: step_caller_def fallbackFanOut_games split: option.splits)
next
  case Done
  then show ?thesis by (simp add: step_caller_def)
qed

lemma step_caller_status:
  assumes "games d gid = Some g"
  shows "\<exists>g'. games (snd (step_caller c d)) gid = Some g'
     \<and> (g_status g' = g_status g \<or> g_status g' = completed)"
proof -
  from step_caller_db[of c d] show ?thesis
  proof
    assume "games (snd (step_caller c d)) = games d"
    then show ?thesis using assms by simp
  next
    assume "\<exists>gid0. updateGame gid0 completing d = Some (snd (step_caller c d))"
    then obtain gid0 where u: "updateGame gid0 completing d = Some (snd (step_caller c d))" ..
    from updateGame_games[OF u assms] show ?thesis
      by (auto simp: completing_def split: if_splits)
  qed
qed

lemma joinMatch_status:
  assumes "games d gid = Some g"
  shows "\<exists>g'. games (apply_op (OpJoin gid' playerId) d) gid = Some g' \<and> g_status g' = g_status g"
  using assms by (auto simp: joinMatch_def Let_def split: option.splits)

lemma click_cancel_status:
  assumes "games d gid = Some g"
  shows "\<exists>g'. games (snd (click_cancel confirmed p d)) gid = Some g'
     \<and> (g_status g' = g_status g \<or> g_status g' = completed)"
proof -
  let ?u = "\<lparr> u_status = Some completed, u_endedAt = False, u_matchIdCode = None \<rparr>"
  have "snd (click_cancel confirmed p d) = d
      \<or> (\<exists>gid0. updateGame gid0 ?u d = Some (snd (click_cancel confirmed p d)))"
    by (auto simp: click_cancel_def handleCancelMatch_def split: option.splits if_splits)
  then show ?thesis
  proof
    assume "snd (click_cancel confirmed p d) = d"
    then show ?thesis using assms by simp
  next
    assume "\<exists>gid0. updateGame gid0 ?u d = Some (snd (click_cancel confirmed p d))"
    then obtain gid0 where u: "updateGame gid0 ?u d = Some (snd (click_cancel confirmed p d))" ..
    from updateGame_games[OF u assms] show ?thesis by (auto split: if_splits)
  qed
qed

lemma click_begin_status:
  assumes "games d gid = Some g"
  shows "\<exists>g'. games (snd (click_begin (onSnapshot teamPlayers p d) d)) gid = Some g'
     \<and> (g_status g' = g_status g \<or> (g_status g = waiting \<and> g_status g' = active))"
proof (cases "cm_match p")
  case None
  then show ?thesis using assms
    by (simp add: click_begin_def onSnapshot_def buttons_rendered_def)
next
  case (Some m)
  obtain gid' m0 where m: "m = (gid', m0)" by (cases m)
  show ?thesis
  proof (cases "games d gid'")
    case None
    then show ?thesis using assms Some m
      by (simp add: click_begin_def onSnapshot_def handleBeginMatch_def updateGame_def)
  next
    case (Some u)
    let ?p = "onSnapshot teamPlayers p d"
    have p: "cm_match ?p = Some (gid', u)"
      "cm_showResults ?p = (if g_status u = completed then True else cm_showResults p)"
      using Some \<open>cm_match p = Some m\<close> m by (simp_all add: onSnapshot_def)
    show ?thesis
    proof (cases "buttons_rendered ?p \<and> \<not> begin_disabled ?p")
      case False
      then show ?thesis using assms by (auto simp: click_begin_def)
    next
      case True
      then have w: "g_status u = waiting"
        using p by (cases "g_status u") (auto simp: buttons_rendered_def begin_disabled_def)
      obtain d' where d': "updateGame gid' \<lparr> u_status = Some active, u_endedAt = False, u_matchIdCode = None \<rparr> d = Some d'"
        using Some by (simp add: updateGame_def Let_def)
      have c: "snd (click_begin ?p d) = d'"
        using True p d' by (auto simp: click_begin_def handleBeginMatch_def begin_disabled_def)
      show ?thesis
        using updateGame_games[OF d' assms] w Some assms by (auto simp: c)
    qed
  qed
qed

lemma create_status:
  assumes "games d gid = Some g"
  shows "\<exists>g'. games (apply_op (OpCreate newId game) d) gid = Some g' \<and> g_status g' = g_status g"
  using assms by (auto simp: createGame_def)

lemma apply_op_status:
  assumes "games d gid = Some g"
  shows "\<exists>g'. games (apply_op op d) gid = Some g' \<and> rank (g_status g) \<le> rank (g_status g')
     \<and> (case op of
           OpJoin gid' playerId \<Rightarrow> g_status g' = g_status g
         | OpBegin teamPlayers p \<Rightarrow>
             g_status g' = g_status g \<or> (g_status g = waiting \<and> g_status g' = active)
         | OpCancel confirmed p \<Rightarrow> g_status g' = g_status g \<or> g_status g' = completed
         | OpCheckStep c \<Rightarrow> g_status g' = g_status g \<or> g_status g' = completed
         | OpCreate newId game \<Rightarrow> g_status g' = g_status g)"
proof (cases op)
  case (OpJoin gid' playerId)
  then show ?thesis using joinMatch_status[OF assms, of gid' playerId] by auto
next
  case (OpBegin teamPlayers p)
  then show ?thesis using click_begin_status[OF assms, of teamPlayers p] by auto
next
  case (OpCancel confirmed p)
  then show ?thesis using click_cancel_status[OF assms, of confirmed p]
    by (cases "g_status g") auto
next
  case (OpCheckStep c)
  then show ?thesis using step_caller_status[OF assms, of c]
    by (cases "g_status g") auto
next
  case (OpCreate newId game)
  from create_status[OF assms, of newId game] obtain g' where
    g': "games (apply_op (OpCreate newId game) d) gid = Some g'" "g_status g' = g_status g"
    by blast
  show ?thesis unfolding OpCreate
    by (rule exI[of _ g']) (simp add: g' del: apply_op.simps)
qed

lemma apply_ops_status:
  "games d gid = Some g \<Longrightarrow>
   \<exists>g'. games (foldl (\<lambda>d' op. apply_op op d') d ops) gid = Some g'
     \<and> rank (g_status g) \<le> rank (g_status g')"
proof (induction ops arbitrary: d g)
  case Nil
  then show ?case by simp
next
  case (Cons op ops)
  from apply_op_status[OF Cons.prems, of op] obtain g1 where
    g1: "games (apply_op op d) gid = Some g1" "rank (g_status g) \<le> rank (g_status g1)"
    by blast
  from Cons.IH[OF g1(1)] obtain g' where
    "games (foldl (\<lambda>d' op. apply_op op d') (apply_op op d) ops) gid = Some g'"
    "rank (g_status g1) \<le> rank (g_status g')"
    by blast
  then show ?case using g1(2) by auto
qed

text \<open>
  C8, as the code has it. The claim (every transition taken is one of the two steps
  waiting to active, active to completed) does not hold: cancelling a match that is still
  waiting writes \<open>completed\<close>, a transition from waiting to completed in one step.
\<close>

theorem cancel_waiting_counterexample:
  "map_option g_status (games example_waiting_db ''g1'') = Some waiting
   \<and> map_option g_status (games (snd (click_cancel True example_page example_waiting_db)) ''g1'')
       = Some completed"
  by (simp add: example_waiting_db_def example_db_def example_game_def example_page_def
      click_cancel_def buttons_rendered_def handleCancelMatch_def updateGame_def)

text \<open>
  C8, amended. The status of a match record never moves backward in the order waiting,
  active, completed: a player joining, the coach beginning the match (from a page that
  has received the current match document), the coach cancelling, any step of a
  participant's completion check and the creation of another game each leave the status
  of an existing match where it is or move it forward, and so does every sequence of
  them. Joining and creating leave it unchanged; beginning moves it from waiting to
  active or not at all; cancelling and the completion check write \<open>completed\<close> or
  nothing, whatever the status was, so a waiting match can become completed directly.
\<close>

theorem status_never_backward:
  "games d gid = Some g \<longrightarrow>
     (\<exists>g'. games (apply_op op d) gid = Some g' \<and> rank (g_status g) \<le> rank (g_status g')
        \<and> (case op of
              OpJoin gid' playerId \<Rightarrow> g_status g' = g_status g
            | OpBegin teamPlayers p \<Rightarrow>
                g_status g' = g_status g \<or> (g_status g = waiting \<and> g_status g' = active)
            | OpCancel confirmed p \<Rightarrow> g_status g' = g_status g \<or> g_status g' = completed
            | OpCheckStep c \<Rightarrow> g_status g' = g_status g \<or> g_status g' = completed
            | OpCreate newId game \<Rightarrow> g_status g' = g_status g))
     \<and> (\<exists>g'. games (foldl (\<lambda>d' op. apply_op op d') d ops) gid = Some g'
        \<and> rank (g_status g) \<le> rank (g_status g'))"
  using apply_op_status[of d gid g op] apply_ops_status[of d gid g ops] by blast

theorem status_never_backward_witness:
  "games example_waiting_db ''g1'' = Some (example_game \<lparr> g_status := waiting \<rparr>)
   \<and> map_option g_status
       (games (foldl (\<lambda>d' op. apply_op op d') example_waiting_db
          [OpJoin ''g1'' ''p3'', OpBegin [''p1'', ''p2'', ''p3''] example_page,
           OpBegin [''p1'', ''p2'', ''p3''] example_page]) ''g1'') = Some active
   \<and> (\<exists>g'. games (foldl (\<lambda>d' op. apply_op op d') example_waiting_db
          [OpJoin ''g1'' ''p3'', OpBegin [''p1'', ''p2'', ''p3''] example_page,
           OpBegin [''p1'', ''p2'', ''p3''] example_page]) ''g1'' = Some g'
        \<and> rank waiting \<le> rank (g_status g'))"
proof -
  have h: "games example_waiting_db ''g1'' = Some (example_game \<lparr> g_status := waiting \<rparr>)"
    by (simp add: example_waiting_db_def)
  have e: "map_option g_status
       (games (foldl (\<lambda>d' op. apply_op op d') example_waiting_db
          [OpJoin ''g1'' ''p3'', OpBegin [''p1'', ''p2'', ''p3''] example_page,
           OpBegin [''p1'', ''p2'', ''p3''] example_page]) ''g1'') = Some active"
    by (simp add: example_waiting_db_def example_db_def example_game_def example_page_def
        joinMatch_def click_begin_def onSnapshot_def buttons_rendered_def begin_disabled_def
        handleBeginMatch_def updateGame_def playerIds_of_def Let_def)
  show ?thesis
    using status_never_backward[of example_waiting_db "''g1''"
        "example_game \<lparr> g_status := waiting \<rparr>" "OpJoin ''g1'' ''p3''"
        "[OpJoin ''g1'' ''p3'', OpBegin [''p1'', ''p2'', ''p3''] example_page,
          OpBegin [''p1'', ''p2'', ''p3''] example_page]"] h e
    by simp
qed

section \<open>Properties of the completion check\<close>

lemma fanOut_teamId:
  assumes "k_teamId c = k_teamId c'"
  shows "fanOut c g gid d = fanOut c' g gid d"
proof -
  have "match_end c = match_end c'"
    using assms by (auto simp: match_end_def fun_eq_iff split: option.splits)
  then show ?thesis by (simp add: fanOut_def cong: option.case_cong)
qed

lemma own_result_visible:
  assumes "mh_gameId m = gid"
  shows "list_ex (\<lambda>mh. mh_playerId mh = mh_playerId m)
           (getMatchHistoriesByGameId gid (snd (createMatchHistory m d)))"
    and "mh_playerId m \<in> results_of gid (snd (createMatchHistory m d))"
  using assms
  by (auto simp: getMatchHistoriesByGameId_def createMatchHistory_def results_of_def list_ex_iff)

lemma set_add_players: "set (add_players hs ps) = set ps \<union> mh_playerId ` set hs"
  unfolding add_players_def by (induction hs arbitrary: ps) auto

lemma games_createMatchHistory: "games (snd (createMatchHistory m d)) = games d"
  by (simp add: createMatchHistory_def)

lemma steps_caller_step:
  "step_caller c d = (c', d') \<Longrightarrow> steps_caller (Suc n) c d = steps_caller n c' d'"
  by simp

lemma steps_caller_Done: "k_pc c = Done \<Longrightarrow> steps_caller n c d = (c, d)"
  by (induction n) (simp_all add: step_caller_def)

text \<open>The steps of one fresh caller, taken one after the other.\<close>

lemma solo_steps:
  assumes f: "fresh_for gid c"
  shows "\<exists>c'. steps_caller 7 c d = (c', check_alone gid c d) \<and> k_pc c' = Done"
proof -
  let ?m = "k_matchHistory c"
  let ?d1 = "snd (createMatchHistory ?m d)"
  have pc: "k_pc c = AtCreateMatchHistory" and g: "k_matchGameId c = Some gid" and ne: "gid \<noteq> []"
    and mg: "mh_gameId ?m = gid" and mp: "mh_playerId ?m = k_playerId c"
    using f by (simp_all add: fresh_for_def)
  obtain c1 where s1: "step_caller c d = (c1, ?d1)" and c1: "c1 = c \<lparr> k_pc := AtGetGame \<rparr>"
    using pc g ne by (simp add: step_caller_def nonempty_def)
  have n7: "steps_caller 7 c d = steps_caller 6 c1 ?d1"
    using steps_caller_step[OF s1, of 6] by (simp add: eval_nat_numeral)
  show ?thesis
  proof (cases "games ?d1 gid")
    case None
    obtain c2 where s2: "step_caller c1 ?d1 = (c2, ?d1)" and c2: "c2 = c1 \<lparr> k_pc := AtFallback \<rparr>"
      using None g c1 by (simp add: step_caller_def getGame_def)
    obtain c3 where s3: "step_caller c2 ?d1 = (c3, ?d1)" and c3: "k_pc c3 = Done"
      using None g c1 c2 by (simp add: step_caller_def getGame_def)
    have "steps_caller 6 c1 ?d1 = steps_caller 4 c3 ?d1"
      using steps_caller_step[OF s2, of 5] steps_caller_step[OF s3, of 4]
      by (simp add: eval_nat_numeral)
    moreover have "check_alone gid c d = ?d1" using None by (simp add: check_alone_def Let_def)
    ultimately show ?thesis using n7 c3 steps_caller_Done[OF c3, of 4 ?d1] by simp
  next
    case (Some gm)
    show ?thesis
    proof (cases "playerIds_of gm = []")
      case True
      obtain c2 where s2: "step_caller c1 ?d1 = (c2, ?d1)" and c2: "c2 = c1 \<lparr> k_pc := AtFallback \<rparr>"
        using Some True g c1 by (simp add: step_caller_def getGame_def)
      have np: "g_playerIds gm \<noteq> Some [k_playerId c]"
        using True by (auto simp: playerIds_of_def split: option.splits)
      obtain c3 where s3: "step_caller c2 ?d1 = (c3, ?d1)" and c3: "k_pc c3 = Done"
        using Some g np c1 c2 by (simp add: step_caller_def getGame_def)
      have "steps_caller 6 c1 ?d1 = steps_caller 4 c3 ?d1"
        using steps_caller_step[OF s2, of 5] steps_caller_step[OF s3, of 4]
        by (simp add: eval_nat_numeral)
      moreover have "check_alone gid c d = ?d1" using Some True by (simp add: check_alone_def Let_def)
      ultimately show ?thesis using n7 c3 steps_caller_Done[OF c3, of 4 ?d1] by simp
    next
      case False
      obtain c2 where s2: "step_caller c1 ?d1 = (c2, ?d1)"
        and c2: "c2 = c1 \<lparr> k_gameData := Some gm, k_completedPlayerIds := [k_playerId c],
                           k_pc := AtGetHistories \<rparr>"
        using Some False g c1 by (simp add: step_caller_def getGame_def)
      let ?all = "getMatchHistoriesByGameId gid ?d1"
      have own: "list_ex (\<lambda>mh. mh_playerId mh = k_playerId c) ?all"
        using own_result_visible(1)[OF mg, of d] mp by simp
      obtain c3 where s3: "step_caller c2 ?d1 = (c3, ?d1)"
        and c3: "c3 = c2 \<lparr> k_completedPlayerIds := add_players ?all [k_playerId c],
                           k_pc := AtDecide \<rparr>"
        using g own c1 c2 by (simp add: step_caller_def Let_def)
      have cs: "set (add_players ?all [k_playerId c]) = results_of gid ?d1"
        using own_result_visible(2)[OF mg, of d] mp
        by (auto simp: set_add_players results_of_def)
      have all: "list_all (\<lambda>pId. pId \<in> set (add_players ?all [k_playerId c])) (playerIds_of gm)
          = (set (playerIds_of gm) \<subseteq> results_of gid ?d1)"
        by (auto simp: cs list_all_iff)
      have n4: "steps_caller 7 c d = steps_caller 4 c3 ?d1"
        using n7 steps_caller_step[OF s2, of 5] steps_caller_step[OF s3, of 4]
        by (simp add: eval_nat_numeral)
      show ?thesis
      proof (cases "set (playerIds_of gm) \<subseteq> results_of gid ?d1 \<and> g_status gm \<noteq> completed")
        case True
        obtain d2 where d2: "updateGame gid completing ?d1 = Some d2"
          using Some by (simp add: updateGame_def Let_def)
        obtain c4 where s4: "step_caller c3 ?d1 = (c4, d2)" and c4: "c4 = c3 \<lparr> k_pc := AtFanOut \<rparr>"
          using g True all d2 c1 c2 c3 by (simp add: step_caller_def Let_def)
        obtain c5 where s5: "step_caller c4 d2 = (c5, fanOut c4 gm gid d2)" and c5: "k_pc c5 = Done"
          using g c1 c2 c3 c4 by (simp add: step_caller_def)
        have fo: "fanOut c4 gm gid d2 = fanOut c gm gid d2"
          by (rule fanOut_teamId) (simp add: c1 c2 c3 c4)
        have r: "check_alone gid c d = fanOut c gm gid d2"
          using Some False True d2 by (simp add: check_alone_def Let_def)
        have "steps_caller 4 c3 ?d1 = steps_caller 2 c5 (fanOut c4 gm gid d2)"
          using steps_caller_step[OF s4, of 3] steps_caller_step[OF s5, of 2]
          by (simp add: eval_nat_numeral)
        then show ?thesis
          using n4 c5 steps_caller_Done[OF c5, of 2 "fanOut c4 gm gid d2"] by (simp add: fo r)
      next
        case no: False
        have "\<exists>c4. step_caller c3 ?d1 = (c4, ?d1) \<and> k_pc c4 = Done"
          using g no all c1 c2 c3 by (auto simp: step_caller_def Let_def)
        then obtain c4 where s4: "step_caller c3 ?d1 = (c4, ?d1)" and c4: "k_pc c4 = Done"
          by blast
        have r: "check_alone gid c d = ?d1"
          using Some False no by (auto simp: check_alone_def Let_def)
        have "steps_caller 4 c3 ?d1 = steps_caller 3 c4 ?d1"
          using steps_caller_step[OF s4, of 3] by (simp add: eval_nat_numeral)
        then show ?thesis
          using n4 c4 steps_caller_Done[OF c4, of 3 ?d1] by (simp add: r)
      qed
    qed
  qed
qed

lemma step_out_of_range: "\<not> i < length (s_callers s) \<Longrightarrow> run_schedule (replicate n i) s = s"
  by (induction n) (simp_all add: run_schedule_def step_def)

lemma run_replicate:
  "i < length (s_callers s) \<Longrightarrow>
   run_schedule (replicate n i) s
     = s \<lparr> s_db := snd (steps_caller n (s_callers s ! i) (s_db s)),
           s_callers := (s_callers s)[i := fst (steps_caller n (s_callers s ! i) (s_db s))] \<rparr>"
proof (induction n arbitrary: s)
  case 0
  then show ?case by (simp add: run_schedule_def)
next
  case (Suc n)
  have l: "i < length (s_callers (step i s))" using Suc.prems by (simp add: step_def Let_def)
  have r: "run_schedule (replicate (Suc n) i) s = run_schedule (replicate n i) (step i s)"
    by (simp add: run_schedule_def)
  show ?case
    unfolding r Suc.IH[OF l] using Suc.prems by (simp add: step_def Let_def)
qed

lemma run_one_after_another_Cons:
  "run_schedule (one_after_another (i # order)) s
     = run_schedule (one_after_another order) (run_schedule (replicate 7 i) s)"
  by (simp add: one_after_another_def run_schedule_def)

lemma solo_fresh:
  assumes "i < length (s_callers s)" and "fresh_for gid (s_callers s ! i)"
  shows "\<exists>c'. run_schedule (replicate 7 i) s
            = s \<lparr> s_db := check_alone gid (s_callers s ! i) (s_db s),
                  s_callers := (s_callers s)[i := c'] \<rparr> \<and> k_pc c' = Done"
  using solo_steps[OF assms(2), of "s_db s"] run_replicate[OF assms(1), of 7] by auto

lemma solo_done:
  assumes "i < length (s_callers s)" and "k_pc (s_callers s ! i) = Done"
  shows "run_schedule (replicate 7 i) s = s"
  using run_replicate[OF assms(1), of 7] steps_caller_Done[OF assms(2), of 7 "s_db s"] by simp

lemma notifications_fanOut:
  "match_end_count gid (fanOut c g gid d) = match_end_count gid d + fan_size g d"
proof -
  have f: "\<And>ps d0. match_end_count gid
        (foldl (\<lambda>d' pId. createNotification (match_end c g gid pId) d') d0 ps)
      = match_end_count gid d0 + length ps"
    subgoal for ps d0
      by (induction ps arbitrary: d0)
         (simp_all add: createNotification_def match_end_count_def match_end_def)
    done
  have n: "\<And>u d. match_end_count gid (createNotification (match_end c g gid u) d)
      = match_end_count gid d + 1"
    by (simp add: createNotification_def match_end_count_def match_end_def)
  show ?thesis
    by (simp add: fanOut_def fan_size_def f n Let_def split: option.splits)
qed

lemma fanOut_rest:
  "statusWrites (fanOut c g gid d) = statusWrites d" "teams (fanOut c g gid d) = teams d"
  "matchHistory (fanOut c g gid d) = matchHistory d"
proof -
  have f: "\<And>ps d0. statusWrites (foldl (\<lambda>d' pId. createNotification (match_end c g gid pId) d') d0 ps)
        = statusWrites d0
      \<and> teams (foldl (\<lambda>d' pId. createNotification (match_end c g gid pId) d') d0 ps) = teams d0
      \<and> matchHistory (foldl (\<lambda>d' pId. createNotification (match_end c g gid pId) d') d0 ps)
        = matchHistory d0"
    subgoal for ps d0
      by (induction ps arbitrary: d0) (simp_all add: createNotification_def)
    done
  have n: "\<And>n d. statusWrites (createNotification n d) = statusWrites d
      \<and> teams (createNotification n d) = teams d
      \<and> matchHistory (createNotification n d) = matchHistory d"
    by (simp add: createNotification_def)
  show "statusWrites (fanOut c g gid d) = statusWrites d" "teams (fanOut c g gid d) = teams d"
    "matchHistory (fanOut c g gid d) = matchHistory d"
    by (simp_all add: fanOut_def f n Let_def split: option.splits)
qed

text \<open>Callers served in any order in which no check is interrupted.\<close>

lemma results_of_createMatchHistory:
  "results_of gid d \<subseteq> results_of gid (snd (createMatchHistory m d))"
  by (auto simp: results_of_def getMatchHistoriesByGameId_def createMatchHistory_def)

lemma results_of_matchHistory:
  "matchHistory d' = matchHistory d \<Longrightarrow> results_of gid d' = results_of gid d"
  by (simp add: results_of_def getMatchHistoriesByGameId_def)

lemma filter_update_count:
  "i < length xs \<Longrightarrow>
   length (filter P (xs[i := y])) + (if P (xs ! i) then 1 else 0)
     = length (filter P xs) + (if P y then 1 else 0)"
proof (induction xs arbitrary: i)
  case Nil
  then show ?case by simp
next
  case (Cons x xs)
  show ?case
  proof (cases i)
    case 0
    then show ?thesis by simp
  next
    case (Suc k)
    then have "k < length xs" using Cons.prems by simp
    from Cons.IH[OF this] show ?thesis by (simp add: Suc)
  qed
qed

lemma waiting_update:
  assumes "i < length (s_callers s)"
  shows "writers_waiting (s \<lparr> s_db := d', s_callers := (s_callers s)[i := c'] \<rparr>)
           + (if k_pc (s_callers s ! i) = AtFanOut then 1 else 0)
         = writers_waiting s + (if k_pc c' = AtFanOut then 1 else 0)"
  using filter_update_count[OF assms, of "\<lambda>c. k_pc c = AtFanOut" c'] by (simp add: writers_waiting_def)

lemma step_eq:
  assumes "i < length (s_callers s)" and "step_caller (s_callers s ! i) (s_db s) = (c', d')"
  shows "step i s = s \<lparr> s_db := d', s_callers := (s_callers s)[i := c'] \<rparr>"
  using assms by (simp add: step_def Let_def)

lemma caller_inv_stable:
  assumes "caller_inv gid g d c" and "\<not> reading c" and "results_of gid d \<subseteq> results_of gid d'"
  shows "caller_inv gid g d' c"
  using assms by (cases "k_pc c") (auto simp: caller_inv_def reading_def)

lemma updateGame_completing:
  assumes "games d gid = Some g'"
  shows "updateGame gid completing d
     = Some (d \<lparr> games := (games d)(gid \<mapsto> g' \<lparr> g_status := completed, g_endedAt := True \<rparr>),
                  statusWrites := statusWrites d @ [(gid, completed)] \<rparr>)"
  using assms by (simp add: updateGame_def completing_def Let_def)

text \<open>What one step does, at each place a caller can have reached.\<close>

lemma step_AtCreateMatchHistory:
  assumes "caller_inv gid g d c" and "k_pc c = AtCreateMatchHistory"
  shows "step_caller c d = (c \<lparr> k_pc := AtGetGame \<rparr>, snd (createMatchHistory (k_matchHistory c) d))"
  using assms by (simp add: step_caller_def caller_inv_def nonempty_def)

lemma step_AtGetGame:
  assumes "caller_inv gid g d c" and "k_pc c = AtGetGame" and "games d gid = Some g'"
  shows "step_caller c d
     = (if playerIds_of g' = [] then (c \<lparr> k_pc := AtFallback \<rparr>, d)
        else (c \<lparr> k_gameData := Some g', k_completedPlayerIds := [k_playerId c],
                   k_pc := AtGetHistories \<rparr>, d))"
  using assms by (simp add: step_caller_def caller_inv_def getGame_def)

lemma step_AtGetHistories:
  assumes "caller_inv gid g d c" and "k_pc c = AtGetHistories"
  shows "step_caller c d
     = (c \<lparr> k_completedPlayerIds :=
               add_players (getMatchHistoriesByGameId gid d) (k_completedPlayerIds c),
             k_pc := AtDecide \<rparr>, d)"
proof -
  have "k_playerId c \<in> results_of gid d" using assms by (simp add: caller_inv_def)
  then have own: "list_ex (\<lambda>mh. mh_playerId mh = k_playerId c) (getMatchHistoriesByGameId gid d)"
    by (auto simp: results_of_def list_ex_iff)
  show ?thesis using assms own by (simp add: step_caller_def caller_inv_def Let_def)
qed

lemma step_AtDecide:
  assumes "caller_inv gid g d c" and "k_pc c = AtDecide" and "games d gid = Some g'"
  shows "step_caller c d
     = (if set (playerIds_of g') \<subseteq> results_of gid d
        then (if g_status g' \<noteq> completed
              then (c \<lparr> k_pc := AtFanOut \<rparr>,
                    d \<lparr> games := (games d)(gid \<mapsto> g' \<lparr> g_status := completed, g_endedAt := True \<rparr>),
                        statusWrites := statusWrites d @ [(gid, completed)] \<rparr>)
              else (c \<lparr> k_pc := Done, k_navigated := True \<rparr>, d))
        else (c \<lparr> k_pc := Done \<rparr>, d))"
proof -
  have gd: "k_gameData c = Some g'" and m: "k_matchGameId c = Some gid"
    and cs: "set (k_completedPlayerIds c) = results_of gid d"
    using assms by (simp_all add: caller_inv_def)
  have all: "list_all (\<lambda>pId. pId \<in> set (k_completedPlayerIds c)) (playerIds_of g')
      = (set (playerIds_of g') \<subseteq> results_of gid d)"
    by (auto simp: cs list_all_iff)
  show ?thesis
    using assms(2) gd m
    by (simp add: step_caller_def Let_def all updateGame_completing[OF assms(3)])
qed

lemma step_AtFanOut:
  assumes "caller_inv gid g d c" and "k_pc c = AtFanOut"
  shows "\<exists>gd. gd \<lparr> g_status := g_status g, g_endedAt := g_endedAt g \<rparr> = g
           \<and> step_caller c d = (c \<lparr> k_pc := Done, k_navigated := True \<rparr>, fanOut c gd gid d)"
  using assms by (auto simp: step_caller_def caller_inv_def)

lemma step_AtFallback:
  assumes "caller_inv gid g d c" and "k_pc c = AtFallback" and "games d gid = Some g'"
    and "playerIds_of g' = playerIds_of g"
  shows "step_caller c d = (c \<lparr> k_pc := Done \<rparr>, d)"
proof -
  have "playerIds_of g' = []" using assms by (simp add: caller_inv_def)
  then have "g_playerIds g' \<noteq> Some [k_playerId c]"
    by (auto simp: playerIds_of_def split: option.splits)
  then show ?thesis using assms by (simp add: step_caller_def caller_inv_def getGame_def)
qed

text \<open>
  A step that leaves the match document, the status writes and the notifications as they
  are, and is not the step of a fan-out.
\<close>

lemma check_inv_local:
  assumes inv: "check_inv gid g d0 s" and i: "i < length (s_callers s)"
    and others: "\<forall>j<length (s_callers s). reading (s_callers s ! j) \<longrightarrow> j = i"
    and db: "games d' = games (s_db s)" "teams d' = teams (s_db s)"
      "statusWrites d' = statusWrites (s_db s)" "notifications d' = notifications (s_db s)"
      "results_of gid (s_db s) \<subseteq> results_of gid d'"
    and pc: "k_pc (s_callers s ! i) \<noteq> AtFanOut" "k_pc c' \<noteq> AtFanOut"
    and ci: "caller_inv gid g d' c'"
    and det: "playerIds_of g \<noteq> [] \<and> set (playerIds_of g) \<subseteq> results_of gid d' \<longrightarrow>
        map_option g_status (games (s_db s) gid) = Some completed \<or> in_check c'"
  shows "check_inv gid g d0 (s \<lparr> s_db := d', s_callers := (s_callers s)[i := c'] \<rparr>)"
proof -
  let ?s' = "s \<lparr> s_db := d', s_callers := (s_callers s)[i := c'] \<rparr>"
  have cw: "completing_writes gid d' = completing_writes gid (s_db s)"
    by (simp add: completing_writes_def db)
  have mc: "match_end_count gid d' = match_end_count gid (s_db s)"
    by (simp add: match_end_count_def db)
  have pe: "writers_waiting ?s' = writers_waiting s" using waiting_update[OF i, where d' = d' and c' = c'] pc by simp
  from inv have doc: "\<exists>g'. games (s_db s) gid = Some g'
         \<and> g' \<lparr> g_status := g_status g, g_endedAt := g_endedAt g \<rparr> = g
         \<and> ((completing_writes gid (s_db s) = 0 \<and> g_status g' = g_status g)
             \<or> (completing_writes gid (s_db s) = 1 \<and> g_status g' = completed))"
    and tm: "teams (s_db s) = teams d0"
    and cs: "\<forall>j<length (s_callers s). caller_inv gid g (s_db s) (s_callers s ! j)"
    and pn: "writers_waiting s \<le> completing_writes gid (s_db s)"
    and cnt: "match_end_count gid (s_db s) + writers_waiting s * fan_size g d0
          = match_end_count gid d0 + completing_writes gid (s_db s) * fan_size g d0"
    unfolding check_inv_def by blast+
  have A: "\<exists>g'. games (s_db ?s') gid = Some g'
         \<and> g' \<lparr> g_status := g_status g, g_endedAt := g_endedAt g \<rparr> = g
         \<and> ((completing_writes gid (s_db ?s') = 0 \<and> g_status g' = g_status g)
             \<or> (completing_writes gid (s_db ?s') = 1 \<and> g_status g' = completed))"
    using doc by (simp add: cw db)
  have B: "teams (s_db ?s') = teams d0" using tm by (simp add: db)
  have C: "\<forall>j<length (s_callers ?s'). caller_inv gid g (s_db ?s') (s_callers ?s' ! j)"
  proof (intro allI impI)
    fix j assume j: "j < length (s_callers ?s')"
    show "caller_inv gid g (s_db ?s') (s_callers ?s' ! j)"
    proof (cases "j = i")
      case True
      then show ?thesis using ci i by simp
    next
      case False
      have jl: "j < length (s_callers s)" using j by simp
      have nr: "\<not> reading (s_callers s ! j)" using others jl False by blast
      from caller_inv_stable[OF cs[rule_format, OF jl] nr db(5)] show ?thesis using False by simp
    qed
  qed
  have D: "writers_waiting ?s' \<le> completing_writes gid (s_db ?s')" using pn by (simp add: pe cw)
  have E: "match_end_count gid (s_db ?s') + writers_waiting ?s' * fan_size g d0
          = match_end_count gid d0 + completing_writes gid (s_db ?s') * fan_size g d0"
    using cnt by (simp add: pe cw mc)
  have F: "playerIds_of g \<noteq> [] \<and> set (playerIds_of g) \<subseteq> results_of gid (s_db ?s') \<longrightarrow>
            map_option g_status (games (s_db ?s') gid) = Some completed
            \<or> (\<exists>j<length (s_callers ?s'). in_check (s_callers ?s' ! j))
            \<or> (\<forall>j<length (s_callers ?s'). k_pc (s_callers ?s' ! j) = AtCreateMatchHistory)"
  proof
    assume h: "playerIds_of g \<noteq> [] \<and> set (playerIds_of g) \<subseteq> results_of gid (s_db ?s')"
    then have "map_option g_status (games (s_db s) gid) = Some completed \<or> in_check c'"
      using det by simp
    then show "map_option g_status (games (s_db ?s') gid) = Some completed
            \<or> (\<exists>j<length (s_callers ?s'). in_check (s_callers ?s' ! j))
            \<or> (\<forall>j<length (s_callers ?s'). k_pc (s_callers ?s' ! j) = AtCreateMatchHistory)"
    proof
      assume "map_option g_status (games (s_db s) gid) = Some completed"
      then show ?thesis by (simp add: db)
    next
      assume "in_check c'"
      then have "i < length (s_callers ?s') \<and> in_check (s_callers ?s' ! i)" using i by simp
      then show ?thesis by blast
    qed
  qed
  from A B C D E F show ?thesis unfolding check_inv_def by blast
qed

text \<open>The step that writes the status.\<close>

lemma check_inv_write:
  assumes inv: "check_inv gid g d0 s" and i: "i < length (s_callers s)"
    and others: "\<forall>j<length (s_callers s). reading (s_callers s ! j) \<longrightarrow> j = i"
    and pc: "k_pc (s_callers s ! i) = AtDecide"
    and doc: "games (s_db s) gid = Some g'" and st: "g_status g' \<noteq> completed"
  shows "check_inv gid g d0
     (s \<lparr> s_db := (s_db s) \<lparr> games := (games (s_db s))(gid \<mapsto> g' \<lparr> g_status := completed, g_endedAt := True \<rparr>),
                             statusWrites := statusWrites (s_db s) @ [(gid, completed)] \<rparr>,
          s_callers := (s_callers s)[i := (s_callers s ! i) \<lparr> k_pc := AtFanOut \<rparr>] \<rparr>)"
proof -
  let ?d = "s_db s"
  let ?c = "s_callers s ! i"
  let ?c' = "?c \<lparr> k_pc := AtFanOut \<rparr>"
  let ?d' = "?d \<lparr> games := (games ?d)(gid \<mapsto> g' \<lparr> g_status := completed, g_endedAt := True \<rparr>),
                  statusWrites := statusWrites ?d @ [(gid, completed)] \<rparr>"
  let ?s' = "s \<lparr> s_db := ?d', s_callers := (s_callers s)[i := ?c'] \<rparr>"
  from inv doc have same: "g' \<lparr> g_status := g_status g, g_endedAt := g_endedAt g \<rparr> = g"
    and wr: "(completing_writes gid ?d = 0 \<and> g_status g' = g_status g)
             \<or> (completing_writes gid ?d = 1 \<and> g_status g' = completed)"
    unfolding check_inv_def by auto
  from inv have tm: "teams ?d = teams d0"
    and cs: "\<forall>j<length (s_callers s). caller_inv gid g ?d (s_callers s ! j)"
    and pn: "writers_waiting s \<le> completing_writes gid ?d"
    and cnt: "match_end_count gid ?d + writers_waiting s * fan_size g d0
          = match_end_count gid d0 + completing_writes gid ?d * fan_size g d0"
    unfolding check_inv_def by blast+
  have w0: "completing_writes gid ?d = 0" using wr st by auto
  have p0: "writers_waiting s = 0" using pn w0 by simp
  have cw: "completing_writes gid ?d' = 1" using w0 by (simp add: completing_writes_def)
  have mc: "match_end_count gid ?d' = match_end_count gid ?d" by (simp add: match_end_count_def)
  have pe: "writers_waiting ?s' = 1" using waiting_update[OF i, where d' = ?d' and c' = ?c'] pc p0 by simp
  have rs: "results_of gid ?d' = results_of gid ?d" by (rule results_of_matchHistory) simp
  have ci: "caller_inv gid g ?d ?c" using cs i by blast
  have "k_gameData ?c = Some g'" using ci pc doc by (simp add: caller_inv_def)
  then have ci': "caller_inv gid g ?d' ?c'" using ci same by (simp add: caller_inv_def)
  have A: "\<exists>g''. games (s_db ?s') gid = Some g''
         \<and> g'' \<lparr> g_status := g_status g, g_endedAt := g_endedAt g \<rparr> = g
         \<and> ((completing_writes gid (s_db ?s') = 0 \<and> g_status g'' = g_status g)
             \<or> (completing_writes gid (s_db ?s') = 1 \<and> g_status g'' = completed))"
    by (rule exI[of _ "g' \<lparr> g_status := completed, g_endedAt := True \<rparr>"])
       (use same cw in simp)
  have B: "teams (s_db ?s') = teams d0" using tm by simp
  have C: "\<forall>j<length (s_callers ?s'). caller_inv gid g (s_db ?s') (s_callers ?s' ! j)"
  proof (intro allI impI)
    fix j assume j: "j < length (s_callers ?s')"
    show "caller_inv gid g (s_db ?s') (s_callers ?s' ! j)"
    proof (cases "j = i")
      case True
      then show ?thesis using ci' i by simp
    next
      case False
      have jl: "j < length (s_callers s)" using j by simp
      have nr: "\<not> reading (s_callers s ! j)" using others jl False by blast
      have "caller_inv gid g ?d' (s_callers s ! j)"
        by (rule caller_inv_stable[OF cs[rule_format, OF jl] nr]) (simp add: rs)
      then show ?thesis using False by simp
    qed
  qed
  have D: "writers_waiting ?s' \<le> completing_writes gid (s_db ?s')" using pe cw by simp
  have E: "match_end_count gid (s_db ?s') + writers_waiting ?s' * fan_size g d0
          = match_end_count gid d0 + completing_writes gid (s_db ?s') * fan_size g d0"
    using cnt w0 p0 pe cw mc by simp
  have F: "playerIds_of g \<noteq> [] \<and> set (playerIds_of g) \<subseteq> results_of gid (s_db ?s') \<longrightarrow>
            map_option g_status (games (s_db ?s') gid) = Some completed
            \<or> (\<exists>j<length (s_callers ?s'). in_check (s_callers ?s' ! j))
            \<or> (\<forall>j<length (s_callers ?s'). k_pc (s_callers ?s' ! j) = AtCreateMatchHistory)"
    by simp
  from A B C D E F show ?thesis unfolding check_inv_def by blast
qed

text \<open>The step that sends the notifications.\<close>

lemma fan_size_same:
  assumes "gd \<lparr> g_status := g_status g, g_endedAt := g_endedAt g \<rparr> = g" and "teams d = teams d0"
  shows "fan_size gd d = fan_size g d0"
proof -
  have r: "playerIds_of gd = playerIds_of g"
    using arg_cong[OF assms(1), of g_playerIds] by (simp add: playerIds_of_def)
  have co: "coach_of gd d = coach_of g d0"
    using arg_cong[OF assms(1), of g_teamId] arg_cong[OF assms(1), of g_coachId] assms(2)
    by (simp add: coach_of_def getTeam_def cong: option.case_cong)
  show ?thesis by (simp add: fan_size_def co r)
qed

lemma check_inv_fanOut:
  assumes inv: "check_inv gid g d0 s" and i: "i < length (s_callers s)"
    and others: "\<forall>j<length (s_callers s). reading (s_callers s ! j) \<longrightarrow> j = i"
    and pc: "k_pc (s_callers s ! i) = AtFanOut"
    and gd: "gd \<lparr> g_status := g_status g, g_endedAt := g_endedAt g \<rparr> = g"
  shows "check_inv gid g d0
     (s \<lparr> s_db := fanOut (s_callers s ! i) gd gid (s_db s),
          s_callers := (s_callers s)[i := (s_callers s ! i) \<lparr> k_pc := Done, k_navigated := True \<rparr>] \<rparr>)"
proof -
  let ?d = "s_db s"
  let ?c = "s_callers s ! i"
  let ?c' = "?c \<lparr> k_pc := Done, k_navigated := True \<rparr>"
  let ?d' = "fanOut ?c gd gid ?d"
  let ?s' = "s \<lparr> s_db := ?d', s_callers := (s_callers s)[i := ?c'] \<rparr>"
  from inv have doc: "\<exists>g'. games ?d gid = Some g'
         \<and> g' \<lparr> g_status := g_status g, g_endedAt := g_endedAt g \<rparr> = g
         \<and> ((completing_writes gid ?d = 0 \<and> g_status g' = g_status g)
             \<or> (completing_writes gid ?d = 1 \<and> g_status g' = completed))"
    and tm: "teams ?d = teams d0"
    and cs: "\<forall>j<length (s_callers s). caller_inv gid g ?d (s_callers s ! j)"
    and pn: "writers_waiting s \<le> completing_writes gid ?d"
    and cnt: "match_end_count gid ?d + writers_waiting s * fan_size g d0
          = match_end_count gid d0 + completing_writes gid ?d * fan_size g d0"
    unfolding check_inv_def by blast+
  have gm: "games ?d' = games ?d" by (rule ext) (simp add: fanOut_games)
  have cw: "completing_writes gid ?d' = completing_writes gid ?d"
    by (simp add: completing_writes_def fanOut_rest)
  have rs: "results_of gid ?d' = results_of gid ?d"
    by (rule results_of_matchHistory) (simp add: fanOut_rest)
  have mc: "match_end_count gid ?d' = match_end_count gid ?d + fan_size g d0"
    by (simp add: notifications_fanOut fan_size_same[OF gd tm])
  have pe: "writers_waiting ?s' + 1 = writers_waiting s" using waiting_update[OF i, where d' = ?d' and c' = ?c'] pc by simp
  then have p1: "1 \<le> writers_waiting s" by simp
  then have w1: "completing_writes gid ?d = 1" using pn doc by auto
  then have fin: "map_option g_status (games ?d gid) = Some completed" using doc by auto
  have ci: "caller_inv gid g ?d ?c" using cs i by blast
  have ci': "caller_inv gid g ?d' ?c'" using ci by (simp add: caller_inv_def)
  have A: "\<exists>g'. games (s_db ?s') gid = Some g'
         \<and> g' \<lparr> g_status := g_status g, g_endedAt := g_endedAt g \<rparr> = g
         \<and> ((completing_writes gid (s_db ?s') = 0 \<and> g_status g' = g_status g)
             \<or> (completing_writes gid (s_db ?s') = 1 \<and> g_status g' = completed))"
    using doc by (simp add: cw gm)
  have B: "teams (s_db ?s') = teams d0" using tm by (simp add: fanOut_rest)
  have C: "\<forall>j<length (s_callers ?s'). caller_inv gid g (s_db ?s') (s_callers ?s' ! j)"
  proof (intro allI impI)
    fix j assume j: "j < length (s_callers ?s')"
    show "caller_inv gid g (s_db ?s') (s_callers ?s' ! j)"
    proof (cases "j = i")
      case True
      then show ?thesis using ci' i by simp
    next
      case False
      have jl: "j < length (s_callers s)" using j by simp
      have nr: "\<not> reading (s_callers s ! j)" using others jl False by blast
      have "caller_inv gid g ?d' (s_callers s ! j)"
        by (rule caller_inv_stable[OF cs[rule_format, OF jl] nr]) (simp add: rs)
      then show ?thesis using False by simp
    qed
  qed
  have D: "writers_waiting ?s' \<le> completing_writes gid (s_db ?s')" using pn pe by (simp add: cw)
  have pw: "writers_waiting s = Suc (writers_waiting ?s')" using pe by simp
  have E: "match_end_count gid (s_db ?s') + writers_waiting ?s' * fan_size g d0
          = match_end_count gid d0 + completing_writes gid (s_db ?s') * fan_size g d0"
    using cnt unfolding pw by (simp add: cw mc)
  have F: "playerIds_of g \<noteq> [] \<and> set (playerIds_of g) \<subseteq> results_of gid (s_db ?s') \<longrightarrow>
            map_option g_status (games (s_db ?s') gid) = Some completed
            \<or> (\<exists>j<length (s_callers ?s'). in_check (s_callers ?s' ! j))
            \<or> (\<forall>j<length (s_callers ?s'). k_pc (s_callers ?s' ! j) = AtCreateMatchHistory)"
    using fin by (simp add: gm)
  from A B C D E F show ?thesis unfolding check_inv_def by blast
qed

text \<open>Every step that does not interrupt a check keeps the invariant.\<close>

lemma check_inv_step:
  assumes inv: "check_inv gid g d0 s"
    and others: "\<forall>j<length (s_callers s). reading (s_callers s ! j) \<longrightarrow> j = i"
  shows "check_inv gid g d0 (step i s)"
proof (cases "i < length (s_callers s)")
  case False
  then show ?thesis using inv by (simp add: step_def)
next
  case i: True
  let ?d = "s_db s"
  let ?c = "s_callers s ! i"
  from inv obtain g' where doc: "games ?d gid = Some g'"
    and same: "g' \<lparr> g_status := g_status g, g_endedAt := g_endedAt g \<rparr> = g"
    unfolding check_inv_def by blast
  from inv have cs: "\<forall>j<length (s_callers s). caller_inv gid g ?d (s_callers s ! j)"
    unfolding check_inv_def by blast
  have ci: "caller_inv gid g ?d ?c" using cs i by blast
  have roster: "playerIds_of g' = playerIds_of g"
    using arg_cong[OF same, of g_playerIds] by (simp add: playerIds_of_def)
  have k: "k_matchGameId ?c = Some gid" "gid \<noteq> []" "mh_gameId (k_matchHistory ?c) = gid"
    "mh_playerId (k_matchHistory ?c) = k_playerId ?c"
    using ci by (simp_all add: caller_inv_def)
  show ?thesis
  proof (cases "k_pc ?c")
    case AtCreateMatchHistory
    let ?d' = "snd (createMatchHistory (k_matchHistory ?c) ?d)"
    let ?c' = "?c \<lparr> k_pc := AtGetGame \<rparr>"
    have e: "step i s = s \<lparr> s_db := ?d', s_callers := (s_callers s)[i := ?c'] \<rparr>"
      by (rule step_eq[OF i step_AtCreateMatchHistory[OF ci AtCreateMatchHistory]])
    have own: "k_playerId ?c \<in> results_of gid ?d'"
      using own_result_visible(2)[OF k(3), of ?d] k(4) by simp
    show ?thesis unfolding e
    proof (rule check_inv_local[OF inv i others])
      show "games ?d' = games ?d" "teams ?d' = teams ?d" "statusWrites ?d' = statusWrites ?d"
        "notifications ?d' = notifications ?d"
        by (simp_all add: createMatchHistory_def)
      show "results_of gid ?d \<subseteq> results_of gid ?d'" by (rule results_of_createMatchHistory)
      show "k_pc ?c \<noteq> AtFanOut" using AtCreateMatchHistory by simp
      show "k_pc ?c' \<noteq> AtFanOut" by simp
      show "caller_inv gid g ?d' ?c'" using k own by (simp add: caller_inv_def)
      show "playerIds_of g \<noteq> [] \<and> set (playerIds_of g) \<subseteq> results_of gid ?d' \<longrightarrow>
          map_option g_status (games ?d gid) = Some completed \<or> in_check ?c'"
        by (simp add: in_check_def)
    qed
  next
    case AtGetGame
    have own: "k_playerId ?c \<in> results_of gid ?d" using ci AtGetGame by (simp add: caller_inv_def)
    show ?thesis
    proof (cases "playerIds_of g' = []")
      case True
      let ?c' = "?c \<lparr> k_pc := AtFallback \<rparr>"
      have e: "step i s = s \<lparr> s_db := ?d, s_callers := (s_callers s)[i := ?c'] \<rparr>"
        by (rule step_eq[OF i]) (simp add: step_AtGetGame[OF ci AtGetGame doc] True)
      show ?thesis unfolding e
      proof (rule check_inv_local[OF inv i others])
        show "k_pc ?c \<noteq> AtFanOut" using AtGetGame by simp
        show "caller_inv gid g ?d ?c'" using k True roster by (simp add: caller_inv_def)
        show "playerIds_of g \<noteq> [] \<and> set (playerIds_of g) \<subseteq> results_of gid ?d \<longrightarrow>
            map_option g_status (games ?d gid) = Some completed \<or> in_check ?c'"
          using True roster by simp
      qed simp_all
    next
      case False
      let ?c' = "?c \<lparr> k_gameData := Some g', k_completedPlayerIds := [k_playerId ?c],
                       k_pc := AtGetHistories \<rparr>"
      have e: "step i s = s \<lparr> s_db := ?d, s_callers := (s_callers s)[i := ?c'] \<rparr>"
        by (rule step_eq[OF i]) (simp add: step_AtGetGame[OF ci AtGetGame doc] False)
      show ?thesis unfolding e
      proof (rule check_inv_local[OF inv i others])
        show "k_pc ?c \<noteq> AtFanOut" using AtGetGame by simp
        show "caller_inv gid g ?d ?c'" using k False roster own doc by (simp add: caller_inv_def)
        show "playerIds_of g \<noteq> [] \<and> set (playerIds_of g) \<subseteq> results_of gid ?d \<longrightarrow>
            map_option g_status (games ?d gid) = Some completed \<or> in_check ?c'"
          by (simp add: in_check_def reading_def)
      qed simp_all
    qed
  next
    case AtGetHistories
    let ?all = "getMatchHistoriesByGameId gid ?d"
    let ?c' = "?c \<lparr> k_completedPlayerIds := add_players ?all (k_completedPlayerIds ?c),
                     k_pc := AtDecide \<rparr>"
    have e: "step i s = s \<lparr> s_db := ?d, s_callers := (s_callers s)[i := ?c'] \<rparr>"
      by (rule step_eq[OF i step_AtGetHistories[OF ci AtGetHistories]])
    have h: "k_gameData ?c = games ?d gid" "set (k_completedPlayerIds ?c) \<subseteq> results_of gid ?d"
      using ci AtGetHistories by (simp_all add: caller_inv_def)
    have seen: "set (add_players ?all (k_completedPlayerIds ?c)) = results_of gid ?d"
      using h(2) by (auto simp: set_add_players results_of_def)
    show ?thesis unfolding e
    proof (rule check_inv_local[OF inv i others])
      show "k_pc ?c \<noteq> AtFanOut" using AtGetHistories by simp
      show "caller_inv gid g ?d ?c'" using k h(1) seen by (simp add: caller_inv_def)
      show "playerIds_of g \<noteq> [] \<and> set (playerIds_of g) \<subseteq> results_of gid ?d \<longrightarrow>
          map_option g_status (games ?d gid) = Some completed \<or> in_check ?c'"
        by (simp add: in_check_def reading_def)
    qed simp_all
  next
    case AtRetry
    then show ?thesis using ci by (simp add: caller_inv_def)
  next
    case AtDecide
    note sd = step_AtDecide[OF ci AtDecide doc]
    show ?thesis
    proof (cases "set (playerIds_of g') \<subseteq> results_of gid ?d")
      case all: True
      show ?thesis
      proof (cases "g_status g' = completed")
        case True
        let ?c' = "?c \<lparr> k_pc := Done, k_navigated := True \<rparr>"
        have e: "step i s = s \<lparr> s_db := ?d, s_callers := (s_callers s)[i := ?c'] \<rparr>"
          by (rule step_eq[OF i]) (simp add: sd all True)
        show ?thesis unfolding e
        proof (rule check_inv_local[OF inv i others])
          show "k_pc ?c \<noteq> AtFanOut" using AtDecide by simp
          show "caller_inv gid g ?d ?c'" using k by (simp add: caller_inv_def)
          show "playerIds_of g \<noteq> [] \<and> set (playerIds_of g) \<subseteq> results_of gid ?d \<longrightarrow>
              map_option g_status (games ?d gid) = Some completed \<or> in_check ?c'"
            using doc True by simp
        qed simp_all
      next
        case False
        have e: "step i s
            = s \<lparr> s_db := ?d \<lparr> games := (games ?d)(gid \<mapsto> g' \<lparr> g_status := completed, g_endedAt := True \<rparr>),
                              statusWrites := statusWrites ?d @ [(gid, completed)] \<rparr>,
                  s_callers := (s_callers s)[i := ?c \<lparr> k_pc := AtFanOut \<rparr>] \<rparr>"
          by (rule step_eq[OF i]) (simp add: sd all False)
        show ?thesis unfolding e by (rule check_inv_write[OF inv i others AtDecide doc False])
      qed
    next
      case False
      let ?c' = "?c \<lparr> k_pc := Done \<rparr>"
      have e: "step i s = s \<lparr> s_db := ?d, s_callers := (s_callers s)[i := ?c'] \<rparr>"
        by (rule step_eq[OF i]) (simp add: sd False)
      show ?thesis unfolding e
      proof (rule check_inv_local[OF inv i others])
        show "k_pc ?c \<noteq> AtFanOut" using AtDecide by simp
        show "caller_inv gid g ?d ?c'" using k by (simp add: caller_inv_def)
        show "playerIds_of g \<noteq> [] \<and> set (playerIds_of g) \<subseteq> results_of gid ?d \<longrightarrow>
            map_option g_status (games ?d gid) = Some completed \<or> in_check ?c'"
          using False roster by simp
      qed simp_all
    qed
  next
    case AtFanOut
    from step_AtFanOut[OF ci AtFanOut] obtain gd
      where gd: "gd \<lparr> g_status := g_status g, g_endedAt := g_endedAt g \<rparr> = g"
        and sc: "step_caller ?c ?d = (?c \<lparr> k_pc := Done, k_navigated := True \<rparr>, fanOut ?c gd gid ?d)"
      by blast
    show ?thesis unfolding step_eq[OF i sc] by (rule check_inv_fanOut[OF inv i others AtFanOut gd])
  next
    case AtFallback
    let ?c' = "?c \<lparr> k_pc := Done \<rparr>"
    have e: "step i s = s \<lparr> s_db := ?d, s_callers := (s_callers s)[i := ?c'] \<rparr>"
      by (rule step_eq[OF i step_AtFallback[OF ci AtFallback doc roster]])
    have empty: "playerIds_of g = []" using ci AtFallback by (simp add: caller_inv_def)
    show ?thesis unfolding e
    proof (rule check_inv_local[OF inv i others])
      show "k_pc ?c \<noteq> AtFanOut" using AtFallback by simp
      show "caller_inv gid g ?d ?c'" using k by (simp add: caller_inv_def)
      show "playerIds_of g \<noteq> [] \<and> set (playerIds_of g) \<subseteq> results_of gid ?d \<longrightarrow>
          map_option g_status (games ?d gid) = Some completed \<or> in_check ?c'"
        using empty by simp
    qed simp_all
  next
    case AtFallbackFanOut
    then show ?thesis using ci by (simp add: caller_inv_def)
  next
    case Done
    have "step_caller ?c ?d = (?c, ?d)" using Done by (simp add: step_caller_def)
    from step_eq[OF i this] have "step i s = s" by simp
    then show ?thesis using inv by simp
  qed
qed

lemma check_inv_run:
  "check_inv gid g d0 s \<Longrightarrow> uninterrupted schedule s \<Longrightarrow>
   check_inv gid g d0 (run_schedule schedule s)"
proof (induction schedule arbitrary: s)
  case Nil
  then show ?case by (simp add: run_schedule_def)
next
  case (Cons i schedule)
  have o: "\<forall>j<length (s_callers s). reading (s_callers s ! j) \<longrightarrow> j = i"
    using Cons.prems(2) by (simp add: list_all_iff)
  have u: "uninterrupted schedule (step i s)" using Cons.prems(2) by simp
  have r: "run_schedule (i # schedule) s = run_schedule schedule (step i s)"
    by (simp add: run_schedule_def)
  show ?case unfolding r by (rule Cons.IH[OF check_inv_step[OF Cons.prems(1) o] u])
qed

lemma check_inv_start:
  assumes "games (s_db s) gid = Some g" and "\<forall>c\<in>set (s_callers s). fresh_for gid c"
    and "completing_writes gid (s_db s) = 0"
  shows "check_inv gid g (s_db s) s"
proof -
  have pcs: "\<forall>j<length (s_callers s). k_pc (s_callers s ! j) = AtCreateMatchHistory"
    using assms(2) by (simp add: fresh_for_def)
  have "filter (\<lambda>c. k_pc c = AtFanOut) (s_callers s) = []"
    using assms(2) by (auto simp: filter_empty_conv fresh_for_def)
  then have p: "writers_waiting s = 0" by (simp add: writers_waiting_def)
  have c: "\<forall>j<length (s_callers s). caller_inv gid g (s_db s) (s_callers s ! j)"
  proof (intro allI impI)
    fix j assume "j < length (s_callers s)"
    then have "fresh_for gid (s_callers s ! j)" using assms(2) nth_mem by blast
    then show "caller_inv gid g (s_db s) (s_callers s ! j)"
      by (simp add: fresh_for_def caller_inv_def)
  qed
  show ?thesis
    unfolding check_inv_def using assms(1,3) p c pcs by simp
qed

text \<open>Callers served one after another do not interrupt each other.\<close>

lemma uninterrupted_append:
  "uninterrupted (a @ b) s = (uninterrupted a s \<and> uninterrupted b (run_schedule a s))"
  by (induction a arbitrary: s) (simp_all add: run_schedule_def)

lemma uninterrupted_replicate:
  "\<forall>j<length (s_callers s). j \<noteq> i \<longrightarrow> \<not> reading (s_callers s ! j) \<Longrightarrow>
   uninterrupted (replicate n i) s"
proof (induction n arbitrary: s)
  case 0
  then show ?case by simp
next
  case (Suc n)
  have k: "\<forall>j<length (s_callers (step i s)). j \<noteq> i \<longrightarrow> \<not> reading (s_callers (step i s) ! j)"
    using Suc.prems by (simp add: step_def Let_def)
  show ?case using Suc.IH[OF k] Suc.prems by (auto simp: list_all_iff)
qed

lemma one_after_another_facts:
  assumes "\<forall>c\<in>set (s_callers s). fresh_for gid c \<or> k_pc c = Done"
  shows "uninterrupted (one_after_another order) s
    \<and> length (s_callers (run_schedule (one_after_another order) s)) = length (s_callers s)
    \<and> (\<forall>j<length (s_callers s).
          k_pc (s_callers (run_schedule (one_after_another order) s) ! j)
            = (if j \<in> set order then Done else k_pc (s_callers s ! j)))"
  using assms
proof (induction order arbitrary: s)
  case Nil
  then show ?case by (simp add: one_after_another_def run_schedule_def)
next
  case (Cons i order)
  let ?s1 = "run_schedule (replicate 7 i) s"
  have split: "run_schedule (one_after_another (i # order)) s
      = run_schedule (one_after_another order) ?s1"
    by (rule run_one_after_another_Cons)
  have nr: "\<forall>j<length (s_callers s). j \<noteq> i \<longrightarrow> \<not> reading (s_callers s ! j)"
  proof (intro allI impI)
    fix j assume "j < length (s_callers s)"
    then have "fresh_for gid (s_callers s ! j) \<or> k_pc (s_callers s ! j) = Done"
      using Cons.prems nth_mem by blast
    then show "\<not> reading (s_callers s ! j)" by (auto simp: fresh_for_def reading_def)
  qed
  have u1: "uninterrupted (replicate 7 i) s" by (rule uninterrupted_replicate[OF nr])
  have ua: "uninterrupted (one_after_another (i # order)) s
      = (uninterrupted (replicate 7 i) s \<and> uninterrupted (one_after_another order) ?s1)"
    unfolding one_after_another_def by (simp add: uninterrupted_append del: replicate.simps)
  have s1: "length (s_callers ?s1) = length (s_callers s)
      \<and> (\<forall>j<length (s_callers s). k_pc (s_callers ?s1 ! j)
            = (if j = i then Done else k_pc (s_callers s ! j)))
      \<and> (\<forall>c\<in>set (s_callers ?s1). fresh_for gid c \<or> k_pc c = Done)"
  proof (cases "i < length (s_callers s)")
    case False
    then have "?s1 = s" by (rule step_out_of_range)
    then show ?thesis using Cons.prems False by simp
  next
    case i: True
    have m: "s_callers s ! i \<in> set (s_callers s)" using i by simp
    show ?thesis
    proof (cases "fresh_for gid (s_callers s ! i)")
      case True
      from solo_fresh[OF i True] obtain c' where
        e: "?s1 = s \<lparr> s_db := check_alone gid (s_callers s ! i) (s_db s),
                       s_callers := (s_callers s)[i := c'] \<rparr>" and c': "k_pc c' = Done"
        by blast
      have "\<forall>c\<in>set (s_callers ?s1). fresh_for gid c \<or> k_pc c = Done"
        using Cons.prems c' by (auto simp: e dest!: set_update_subset_insert[THEN subsetD])
      then show ?thesis using c' i by (simp add: e nth_list_update)
    next
      case False
      then have d: "k_pc (s_callers s ! i) = Done" using Cons.prems m by blast
      have "?s1 = s" by (rule solo_done[OF i d])
      then show ?thesis using Cons.prems d by auto
    qed
  qed
  from s1 have fr1: "\<forall>c\<in>set (s_callers ?s1). fresh_for gid c \<or> k_pc c = Done" by blast
  note ih = Cons.IH[OF fr1]
  show ?case unfolding split ua using u1 ih s1 by auto
qed

text \<open>
  C1, as the code has it. The claim (the status is written to \<open>completed\<close> exactly once,
  by one atomic conditional update, and only that caller notifies) does not hold: the two
  participants of a match finish together, both read the match while it is active, both
  see both results, and both write the status and send the notifications; the status is
  written twice and six notifications are sent, not three.
\<close>

theorem completion_race_counterexample:
  "completing_writes ''g1'' (s_db (run_schedule [0, 1, 0, 1, 0, 1, 0, 1, 0, 1] example_race)) = 2
   \<and> match_end_count ''g1'' (s_db (run_schedule [0, 1, 0, 1, 0, 1, 0, 1, 0, 1] example_race)) = 6
   \<and> map k_pc (s_callers (run_schedule [0, 1, 0, 1, 0, 1, 0, 1, 0, 1] example_race)) = [Done, Done]"
  by code_simp

text \<open>
  C1, amended. The update of the status is not conditional: a caller writes
  \<open>completed\<close> when the match document it read earlier did not say \<open>completed\<close> and it
  saw a result entry of every member of the roster, and a caller that has written sends the
  notifications (one per roster member, and one for the coach if one is found) in its
  next step. Let the participants, each having just finished the session, be served in
  any order in which no step of a caller falls between another caller's read of the match
  document and that caller's decision (\<open>uninterrupted\<close>); the result writes, the
  fan-outs and the steps outside that window may interleave freely. Then the status of
  the match is written at most once, and the notifications sent are those of one fan-out
  for every write whose writer has taken its fan-out step. If moreover the match was not
  completed, has a roster, every caller has finished or not started, at least one has
  finished, and every roster member has a result entry, the status is written exactly once
  and is \<open>completed\<close>. Callers served one after another, each one's seven steps in a
  row, are such an order, and they all finish; the steps of a single participant,
  uninterrupted, do to the store what \<open>check_alone\<close> says.
\<close>

theorem completion_once_uninterrupted:
  "games (s_db s) gid = Some g \<and> (\<forall>c\<in>set (s_callers s). fresh_for gid c)
   \<and> completing_writes gid (s_db s) = 0 \<longrightarrow>
     (uninterrupted schedule s \<longrightarrow>
        completing_writes gid (s_db (run_schedule schedule s)) \<le> 1
        \<and> writers_waiting (run_schedule schedule s) \<le> completing_writes gid (s_db (run_schedule schedule s))
        \<and> match_end_count gid (s_db (run_schedule schedule s))
            = match_end_count gid (s_db s)
              + (completing_writes gid (s_db (run_schedule schedule s))
                  - writers_waiting (run_schedule schedule s)) * fan_size g (s_db s)
        \<and> (g_status g \<noteq> completed \<and> playerIds_of g \<noteq> []
             \<and> (\<forall>c\<in>set (s_callers (run_schedule schedule s)).
                   k_pc c = AtCreateMatchHistory \<or> k_pc c = Done)
             \<and> (\<exists>c\<in>set (s_callers (run_schedule schedule s)). k_pc c = Done)
             \<and> set (playerIds_of g) \<subseteq> results_of gid (s_db (run_schedule schedule s)) \<longrightarrow>
            completing_writes gid (s_db (run_schedule schedule s)) = 1
            \<and> map_option g_status (games (s_db (run_schedule schedule s)) gid) = Some completed))
     \<and> uninterrupted (one_after_another order) s
     \<and> length (s_callers (run_schedule (one_after_another order) s)) = length (s_callers s)
     \<and> (\<forall>j<length (s_callers s).
           k_pc (s_callers (run_schedule (one_after_another order) s) ! j)
             = (if j \<in> set order then Done else AtCreateMatchHistory))
     \<and> (i < length (s_callers s) \<longrightarrow>
         s_db (run_schedule (one_after_another [i]) s) = check_alone gid (s_callers s ! i) (s_db s))"
proof (intro impI)
  assume a: "games (s_db s) gid = Some g \<and> (\<forall>c\<in>set (s_callers s). fresh_for gid c)
      \<and> completing_writes gid (s_db s) = 0"
  then have g: "games (s_db s) gid = Some g" and fr: "\<forall>c\<in>set (s_callers s). fresh_for gid c"
    and w0: "completing_writes gid (s_db s) = 0"
    by simp_all
  have inv0: "check_inv gid g (s_db s) s" by (rule check_inv_start[OF g fr w0])
  have general: "uninterrupted schedule s \<longrightarrow>
        completing_writes gid (s_db (run_schedule schedule s)) \<le> 1
        \<and> writers_waiting (run_schedule schedule s) \<le> completing_writes gid (s_db (run_schedule schedule s))
        \<and> match_end_count gid (s_db (run_schedule schedule s))
            = match_end_count gid (s_db s)
              + (completing_writes gid (s_db (run_schedule schedule s))
                  - writers_waiting (run_schedule schedule s)) * fan_size g (s_db s)
        \<and> (g_status g \<noteq> completed \<and> playerIds_of g \<noteq> []
             \<and> (\<forall>c\<in>set (s_callers (run_schedule schedule s)).
                   k_pc c = AtCreateMatchHistory \<or> k_pc c = Done)
             \<and> (\<exists>c\<in>set (s_callers (run_schedule schedule s)). k_pc c = Done)
             \<and> set (playerIds_of g) \<subseteq> results_of gid (s_db (run_schedule schedule s)) \<longrightarrow>
            completing_writes gid (s_db (run_schedule schedule s)) = 1
            \<and> map_option g_status (games (s_db (run_schedule schedule s)) gid) = Some completed)"
  proof
    assume u: "uninterrupted schedule s"
    let ?f = "run_schedule schedule s"
    let ?w = "completing_writes gid (s_db ?f)"
    from check_inv_run[OF inv0 u] have inv: "check_inv gid g (s_db s) ?f" .
    from inv obtain g' where g': "games (s_db ?f) gid = Some g'"
      and wr: "(?w = 0 \<and> g_status g' = g_status g) \<or> (?w = 1 \<and> g_status g' = completed)"
      unfolding check_inv_def by blast
    from inv have pn: "writers_waiting ?f \<le> ?w"
      and cnt: "match_end_count gid (s_db ?f) + writers_waiting ?f * fan_size g (s_db s)
          = match_end_count gid (s_db s) + ?w * fan_size g (s_db s)"
      and det: "playerIds_of g \<noteq> [] \<and> set (playerIds_of g) \<subseteq> results_of gid (s_db ?f) \<longrightarrow>
            map_option g_status (games (s_db ?f) gid) = Some completed
            \<or> (\<exists>j<length (s_callers ?f). in_check (s_callers ?f ! j))
            \<or> (\<forall>j<length (s_callers ?f). k_pc (s_callers ?f ! j) = AtCreateMatchHistory)"
      unfolding check_inv_def by blast+
    have one: "?w \<le> 1" using wr by auto
    have "(?w - writers_waiting ?f) * fan_size g (s_db s) + writers_waiting ?f * fan_size g (s_db s)
        = ?w * fan_size g (s_db s)"
      using pn by (simp add: add_mult_distrib[symmetric])
    then have count: "match_end_count gid (s_db ?f)
        = match_end_count gid (s_db s) + (?w - writers_waiting ?f) * fan_size g (s_db s)"
      using cnt by simp
    have exact: "g_status g \<noteq> completed \<and> playerIds_of g \<noteq> []
             \<and> (\<forall>c\<in>set (s_callers ?f). k_pc c = AtCreateMatchHistory \<or> k_pc c = Done)
             \<and> (\<exists>c\<in>set (s_callers ?f). k_pc c = Done)
             \<and> set (playerIds_of g) \<subseteq> results_of gid (s_db ?f) \<longrightarrow>
            ?w = 1 \<and> map_option g_status (games (s_db ?f) gid) = Some completed"
    proof
      assume h: "g_status g \<noteq> completed \<and> playerIds_of g \<noteq> []
             \<and> (\<forall>c\<in>set (s_callers ?f). k_pc c = AtCreateMatchHistory \<or> k_pc c = Done)
             \<and> (\<exists>c\<in>set (s_callers ?f). k_pc c = Done)
             \<and> set (playerIds_of g) \<subseteq> results_of gid (s_db ?f)"
      have no_check: "\<not> (\<exists>j<length (s_callers ?f). in_check (s_callers ?f ! j))"
      proof
        assume "\<exists>j<length (s_callers ?f). in_check (s_callers ?f ! j)"
        then obtain j where j: "j < length (s_callers ?f)" "in_check (s_callers ?f ! j)" by blast
        then have "s_callers ?f ! j \<in> set (s_callers ?f)" by simp
        then have "k_pc (s_callers ?f ! j) = AtCreateMatchHistory \<or> k_pc (s_callers ?f ! j) = Done"
          using h by blast
        then show False using j(2) by (auto simp: in_check_def reading_def)
      qed
      have started: "\<not> (\<forall>j<length (s_callers ?f). k_pc (s_callers ?f ! j) = AtCreateMatchHistory)"
      proof
        assume n: "\<forall>j<length (s_callers ?f). k_pc (s_callers ?f ! j) = AtCreateMatchHistory"
        from h obtain c where c: "c \<in> set (s_callers ?f)" "k_pc c = Done" by blast
        then obtain j where "j < length (s_callers ?f)" "s_callers ?f ! j = c"
          by (auto simp: in_set_conv_nth)
        then show False using n c(2) by auto
      qed
      from det h no_check started
      have "map_option g_status (games (s_db ?f) gid) = Some completed" by blast
      then show "?w = 1 \<and> map_option g_status (games (s_db ?f) gid) = Some completed"
        using wr g' h by auto
    qed
    from one pn count exact show
      "?w \<le> 1 \<and> writers_waiting ?f \<le> ?w
       \<and> match_end_count gid (s_db ?f)
           = match_end_count gid (s_db s) + (?w - writers_waiting ?f) * fan_size g (s_db s)
       \<and> (g_status g \<noteq> completed \<and> playerIds_of g \<noteq> []
             \<and> (\<forall>c\<in>set (s_callers ?f). k_pc c = AtCreateMatchHistory \<or> k_pc c = Done)
             \<and> (\<exists>c\<in>set (s_callers ?f). k_pc c = Done)
             \<and> set (playerIds_of g) \<subseteq> results_of gid (s_db ?f) \<longrightarrow>
            ?w = 1 \<and> map_option g_status (games (s_db ?f) gid) = Some completed)"
      by blast
  qed
  have fr0: "\<forall>c\<in>set (s_callers s). fresh_for gid c \<or> k_pc c = Done" using fr by blast
  have pc0: "\<And>j. j < length (s_callers s) \<Longrightarrow> k_pc (s_callers s ! j) = AtCreateMatchHistory"
    using fr by (simp add: fresh_for_def)
  from one_after_another_facts[OF fr0, of order]
  have seq: "uninterrupted (one_after_another order) s"
    and len: "length (s_callers (run_schedule (one_after_another order) s)) = length (s_callers s)"
    and pcs: "\<forall>j<length (s_callers s).
           k_pc (s_callers (run_schedule (one_after_another order) s) ! j)
             = (if j \<in> set order then Done else AtCreateMatchHistory)"
    using pc0 by simp_all
  have alone: "i < length (s_callers s) \<longrightarrow>
      s_db (run_schedule (one_after_another [i]) s) = check_alone gid (s_callers s ! i) (s_db s)"
  proof
    assume i: "i < length (s_callers s)"
    then have "fresh_for gid (s_callers s ! i)" using fr by simp
    from solo_fresh[OF i this] show
      "s_db (run_schedule (one_after_another [i]) s) = check_alone gid (s_callers s ! i) (s_db s)"
      by (auto simp: one_after_another_def)
  qed
  from general seq len pcs alone show
    "(uninterrupted schedule s \<longrightarrow>
        completing_writes gid (s_db (run_schedule schedule s)) \<le> 1
        \<and> writers_waiting (run_schedule schedule s) \<le> completing_writes gid (s_db (run_schedule schedule s))
        \<and> match_end_count gid (s_db (run_schedule schedule s))
            = match_end_count gid (s_db s)
              + (completing_writes gid (s_db (run_schedule schedule s))
                  - writers_waiting (run_schedule schedule s)) * fan_size g (s_db s)
        \<and> (g_status g \<noteq> completed \<and> playerIds_of g \<noteq> []
             \<and> (\<forall>c\<in>set (s_callers (run_schedule schedule s)).
                   k_pc c = AtCreateMatchHistory \<or> k_pc c = Done)
             \<and> (\<exists>c\<in>set (s_callers (run_schedule schedule s)). k_pc c = Done)
             \<and> set (playerIds_of g) \<subseteq> results_of gid (s_db (run_schedule schedule s)) \<longrightarrow>
            completing_writes gid (s_db (run_schedule schedule s)) = 1
            \<and> map_option g_status (games (s_db (run_schedule schedule s)) gid) = Some completed))
     \<and> uninterrupted (one_after_another order) s
     \<and> length (s_callers (run_schedule (one_after_another order) s)) = length (s_callers s)
     \<and> (\<forall>j<length (s_callers s).
           k_pc (s_callers (run_schedule (one_after_another order) s) ! j)
             = (if j \<in> set order then Done else AtCreateMatchHistory))
     \<and> (i < length (s_callers s) \<longrightarrow>
         s_db (run_schedule (one_after_another [i]) s) = check_alone gid (s_callers s ! i) (s_db s))"
    by blast
qed

lemma example_race_facts:
  "games (s_db example_race) ''g1'' = Some example_game"
  "\<forall>c\<in>set (s_callers example_race). fresh_for ''g1'' c"
  "completing_writes ''g1'' (s_db example_race) = 0"
  "g_status example_game \<noteq> completed" "playerIds_of example_game \<noteq> []"
  "length (s_callers example_race) = 2"
  "match_end_count ''g1'' (s_db example_race) = 0"
  "fan_size example_game (s_db example_race) = 3"
  by (simp_all add: example_race_def example_db_def example_game_def fresh_for_def new_caller_def
      example_history_def matchHistory_of_def completing_writes_def playerIds_of_def
      match_end_count_def fan_size_def coach_of_def nonempty_def getTeam_def)

text \<open>
  The two participants of the example match write their results first and then run their
  checks in turn; and the two served one after the other. The schedule of the race above
  is not uninterrupted.
\<close>

theorem completion_once_uninterrupted_witness:
  "uninterrupted [0, 1, 0, 0, 0, 0, 0, 0, 1, 1, 1, 1, 1, 1] example_race
   \<and> \<not> uninterrupted [0, 1, 0, 1, 0, 1, 0, 1, 0, 1] example_race
   \<and> completing_writes ''g1''
       (s_db (run_schedule [0, 1, 0, 0, 0, 0, 0, 0, 1, 1, 1, 1, 1, 1] example_race)) = 1
   \<and> match_end_count ''g1''
       (s_db (run_schedule [0, 1, 0, 0, 0, 0, 0, 0, 1, 1, 1, 1, 1, 1] example_race)) = 3
   \<and> map_option g_status
       (games (s_db (run_schedule [0, 1, 0, 0, 0, 0, 0, 0, 1, 1, 1, 1, 1, 1] example_race)) ''g1'')
       = Some completed
   \<and> uninterrupted (one_after_another [1, 0]) example_race
   \<and> completing_writes ''g1'' (s_db (run_schedule (one_after_another [1, 0]) example_race)) = 1
   \<and> match_end_count ''g1'' (s_db (run_schedule (one_after_another [1, 0]) example_race)) = 3
   \<and> map k_pc (s_callers (run_schedule (one_after_another [1, 0]) example_race)) = [Done, Done]
   \<and> s_db (run_schedule (one_after_another [0]) example_race)
       = check_alone ''g1'' (s_callers example_race ! 0) (s_db example_race)"
proof -
  let ?a = "[0, 1, 0, 0, 0, 0, 0, 0, 1, 1, 1, 1, 1, 1 :: nat]"
  let ?b = "one_after_another [1, 0]"
  have h0: "games (s_db example_race) ''g1'' = Some example_game
      \<and> (\<forall>c\<in>set (s_callers example_race). fresh_for ''g1'' c)
      \<and> completing_writes ''g1'' (s_db example_race) = 0"
    using example_race_facts by simp
  have ua: "uninterrupted ?a example_race" by code_simp
  have nu: "\<not> uninterrupted [0, 1, 0, 1, 0, 1, 0, 1, 0, 1] example_race" by code_simp
  have ea: "g_status example_game \<noteq> completed \<and> playerIds_of example_game \<noteq> []
      \<and> (\<forall>c\<in>set (s_callers (run_schedule ?a example_race)).
            k_pc c = AtCreateMatchHistory \<or> k_pc c = Done)
      \<and> (\<exists>c\<in>set (s_callers (run_schedule ?a example_race)). k_pc c = Done)
      \<and> set (playerIds_of example_game) \<subseteq> results_of ''g1'' (s_db (run_schedule ?a example_race))"
    by code_simp
  have pa: "writers_waiting (run_schedule ?a example_race) = 0" by code_simp
  have eb: "g_status example_game \<noteq> completed \<and> playerIds_of example_game \<noteq> []
      \<and> (\<forall>c\<in>set (s_callers (run_schedule ?b example_race)).
            k_pc c = AtCreateMatchHistory \<or> k_pc c = Done)
      \<and> (\<exists>c\<in>set (s_callers (run_schedule ?b example_race)). k_pc c = Done)
      \<and> set (playerIds_of example_game) \<subseteq> results_of ''g1'' (s_db (run_schedule ?b example_race))"
    by code_simp
  have pb: "writers_waiting (run_schedule ?b example_race) = 0" by code_simp
  note ta = completion_once_uninterrupted[where s = example_race and gid = "''g1''"
      and g = example_game and schedule = ?a and order = "[1, 0]" and i = 0, rule_format, OF h0]
  note tb = completion_once_uninterrupted[where s = example_race and gid = "''g1''"
      and g = example_game and schedule = ?b and order = "[1, 0]" and i = 0, rule_format, OF h0]
  have ub: "uninterrupted ?b example_race" using ta by blast
  from ta ua ea have wa: "completing_writes ''g1'' (s_db (run_schedule ?a example_race)) = 1"
    and sa: "map_option g_status (games (s_db (run_schedule ?a example_race)) ''g1'') = Some completed"
    and ca: "match_end_count ''g1'' (s_db (run_schedule ?a example_race))
        = match_end_count ''g1'' (s_db example_race)
          + (completing_writes ''g1'' (s_db (run_schedule ?a example_race))
              - writers_waiting (run_schedule ?a example_race)) * fan_size example_game (s_db example_race)"
    by blast+
  from tb ub eb have wb: "completing_writes ''g1'' (s_db (run_schedule ?b example_race)) = 1"
    and cb: "match_end_count ''g1'' (s_db (run_schedule ?b example_race))
        = match_end_count ''g1'' (s_db example_race)
          + (completing_writes ''g1'' (s_db (run_schedule ?b example_race))
              - writers_waiting (run_schedule ?b example_race)) * fan_size example_game (s_db example_race)"
    by blast+
  have ma: "match_end_count ''g1'' (s_db (run_schedule ?a example_race)) = 3"
    unfolding ca wa pa by (simp add: example_race_facts)
  have mb: "match_end_count ''g1'' (s_db (run_schedule ?b example_race)) = 3"
    unfolding cb wb pb by (simp add: example_race_facts)
  from tb have lb: "length (s_callers (run_schedule ?b example_race)) = length (s_callers example_race)"
    and qb: "\<forall>j<length (s_callers example_race).
           k_pc (s_callers (run_schedule ?b example_race) ! j)
             = (if j \<in> set [1, 0] then Done else AtCreateMatchHistory)"
    and al: "0 < length (s_callers example_race) \<longrightarrow>
         s_db (run_schedule (one_after_another [0]) example_race)
           = check_alone ''g1'' (s_callers example_race ! 0) (s_db example_race)"
    by blast+
  have pb2: "map k_pc (s_callers (run_schedule ?b example_race)) = [Done, Done]"
    using lb qb by (auto simp: example_race_facts list_eq_iff_nth_eq less_Suc_eq eval_nat_numeral)
  have al2: "s_db (run_schedule (one_after_another [0]) example_race)
           = check_alone ''g1'' (s_callers example_race ! 0) (s_db example_race)"
    using al by (simp add: example_race_facts)
  from ua nu wa ma sa ub wb mb pb2 al2 show ?thesis by blast
qed


end
